theory Spec2Isabelle
  imports Complex_Main "HOL-Library.Stream" "HOL-Library.Multiset"
begin

section \<open>Blackjack: the scoring functions of blackjack.py\<close>

text \<open>
  Card values and hand totals are Python integers, modelled as \<open>int\<close>; a hand is an
  \<open>int list\<close>. Rewards are Python floats taking only the values
  \<open>-2, -1, 0, 1, 1.5, 2, 3\<close>, all exactly representable, so they are modelled as
  \<open>rat\<close>. Exceptions are values of the type \<open>error\<close>.
\<close>

datatype error = AssertionError | ValueError | IndexError | UnboundLocalError

text \<open>\<^verbatim>\<open>def cmp(a, b): return float(a > b) - float(a < b)\<close>\<close>

definition cmp :: "int \<Rightarrow> int \<Rightarrow> rat" where
  "cmp a b = (if a > b then 1 else 0) - (if a < b then 1 else 0)"

text \<open>
  \<^verbatim>\<open>def usable_ace(hand): return 1 in hand and sum(hand) + 10 <= 21\<close>
\<close>

definition usable_ace :: "int list \<Rightarrow> bool" where
  "usable_ace hand = (1 \<in> set hand \<and> sum_list hand + 10 \<le> 21)"

text \<open>
  \<^verbatim>\<open>def sum_hand(hand):
      if usable_ace(hand): return sum(hand) + 10
      return sum(hand)\<close>
\<close>

definition sum_hand :: "int list \<Rightarrow> int" where
  "sum_hand hand = (if usable_ace hand then sum_list hand + 10 else sum_list hand)"

text \<open>\<^verbatim>\<open>def is_bust(hand): return sum_hand(hand) > 21\<close>\<close>

definition is_bust :: "int list \<Rightarrow> bool" where
  "is_bust hand = (sum_hand hand > 21)"

text \<open>\<^verbatim>\<open>def score(hand): return 0 if is_bust(hand) else sum_hand(hand)\<close>\<close>

definition score :: "int list \<Rightarrow> int" where
  "score hand = (if is_bust hand then 0 else sum_hand hand)"

text \<open>\<^verbatim>\<open>def is_natural(hand): return sorted(hand) == [1, 10]\<close>\<close>

definition is_natural :: "int list \<Rightarrow> bool" where
  "is_natural hand = (sort hand = [1, 10])"

lemma sum_le_sum_hand: "sum_list hand \<le> sum_hand hand"
  by (simp add: sum_hand_def)

section \<open>The infinite-deck simulator: class BlackjackEnv\<close>

text \<open>
  Randomness is an explicit stream of raw natural numbers: each call of the generator
  consumes the head of the stream. \<^verbatim>\<open>np_random.choice(deck)\<close> picks the entry of the
  13-entry population at index \<open>shd g mod 13\<close>, so every entry can be drawn. The module
  level list \<^verbatim>\<open>deck\<close> is named \<open>deck_values\<close> here, because \<open>deck\<close> is also the name of a
  field of the finite simulator.
\<close>

definition deck_values :: "int list" where
  "deck_values = [1, 2, 3, 4, 5, 6, 7, 8, 9, 10, 10, 10, 10]"

definition draw_card :: "nat stream \<Rightarrow> int \<times> nat stream" where
  "draw_card g = (deck_values ! (shd g mod length deck_values), stl g)"

definition draw_hand :: "nat stream \<Rightarrow> int list \<times> nat stream" where
  "draw_hand g =
     (case draw_card g of (c1, g1) \<Rightarrow>
      case draw_card g1 of (c2, g2) \<Rightarrow> ([c1, c2], g2))"

text \<open>
  Both simulator classes have the fields \<^verbatim>\<open>natural\<close>, \<^verbatim>\<open>player\<close> and \<^verbatim>\<open>dealer\<close>; they
  are the common part \<open>Table\<close> of the two state records. \<open>BlackjackEnv\<close> adds the flag
  \<^verbatim>\<open>double\<close> and its generator \<^verbatim>\<open>np_random\<close>.
\<close>

record Table =
  natural :: bool
  player :: "int list"
  dealer :: "int list"

record BlackjackEnv = Table +
  double :: bool
  np_random :: "nat stream"

type_synonym obs = "int \<times> int \<times> bool"

text \<open>
  \<^verbatim>\<open>def _get_obs(self):
      return (sum_hand(self.player), self.dealer[0], usable_ace(self.player))\<close>
  \<^verbatim>\<open>self.dealer[0]\<close> raises IndexError on an empty dealer hand.
\<close>

definition get_obs :: "'a Table_scheme \<Rightarrow> error + obs" where
  "get_obs s =
     (case dealer s of
        [] \<Rightarrow> Inl IndexError
      | c # _ \<Rightarrow> Inr (sum_hand (player s), c, usable_ace (player s)))"

text \<open>
  The reward of a resolved hand, lines 101 to 103 (and 109 to 111, 178 to 180, 196 to 198):
  \<^verbatim>\<open>reward = cmp(score(self.player), score(self.dealer))
  if self.natural and is_natural(self.player) and reward == 1.:
      reward = 1.5\<close>
\<close>

definition payout :: "'a Table_scheme \<Rightarrow> rat" where
  "payout s =
     (let reward = cmp (score (player s)) (score (dealer s))
      in if natural s \<and> is_natural (player s) \<and> reward = 1 then 3 / 2 else reward)"

lemma deck_values_range: "c \<in> set deck_values \<Longrightarrow> 1 \<le> c \<and> c \<le> 10"
  by (auto simp: deck_values_def)

lemma draw_card_range: "1 \<le> fst (draw_card g) \<and> fst (draw_card g) \<le> 10"
proof -
  have "shd g mod length deck_values < length deck_values"
    by (simp add: deck_values_def)
  then have "deck_values ! (shd g mod length deck_values) \<in> set deck_values"
    by (rule nth_mem)
  then show ?thesis
    using deck_values_range by (simp add: draw_card_def)
qed

text \<open>
  The dealer's loop, lines 99 to 100:
  \<^verbatim>\<open>while sum_hand(self.dealer) < 17:
      self.dealer.append(draw_card(self.np_random))\<close>
  It terminates because every drawn card is at least 1.
\<close>

function play_dealer :: "BlackjackEnv \<Rightarrow> BlackjackEnv" where
  "play_dealer s =
     (if sum_hand (dealer s) < 17
      then (case draw_card (np_random s) of
              (c, g) \<Rightarrow> play_dealer (s\<lparr>dealer := dealer s @ [c], np_random := g\<rparr>))
      else s)"
  by pat_completeness auto
termination
  apply (relation "measure (\<lambda>s. nat (17 - sum_list (dealer s)))")
   apply simp
  subgoal for s c g
    using draw_card_range [of "np_random s"] sum_le_sum_hand [of "dealer s"]
    by (cases "draw_card (np_random s)") auto
  done

declare play_dealer.simps [simp del]

text \<open>
  The tail of \<^verbatim>\<open>step\<close>, \<^verbatim>\<open>return self._get_obs(), reward, done, {}\<close>: the observation
  is computed first and may raise. The empty \<^verbatim>\<open>info\<close> dictionary is left out.
\<close>

definition returns :: "BlackjackEnv \<Rightarrow> rat \<Rightarrow> bool \<Rightarrow> (error + obs \<times> rat \<times> bool) \<times> BlackjackEnv" where
  "returns s reward done =
     (case get_obs s of Inl e \<Rightarrow> (Inl e, s) | Inr ob \<Rightarrow> (Inr (ob, reward, done), s))"

text \<open>
  \<^verbatim>\<open>BlackjackEnv.step\<close>. The action space is \<^verbatim>\<open>spaces.Discrete(3)\<close> whatever \<^verbatim>\<open>double\<close>
  is, and \<^verbatim>\<open>assert self.action_space.contains(action)\<close> raises AssertionError for an
  integer outside \<open>{0, 1, 2}\<close>. An exception leaves the state as it was when raised, so
  the function returns the state beside the result. The last branch (no \<^verbatim>\<open>elif\<close>
  taken, \<^verbatim>\<open>reward\<close> unbound at the \<^verbatim>\<open>return\<close>) is kept although the assertion makes
  it unreachable.
\<close>

definition BlackjackEnv_step :: "BlackjackEnv \<Rightarrow> int \<Rightarrow> (error + obs \<times> rat \<times> bool) \<times> BlackjackEnv" where
  "BlackjackEnv_step s action =
     (if \<not> (0 \<le> action \<and> action < 3) then (Inl AssertionError, s)
      else if action = 1 then
        (case draw_card (np_random s) of (c, g) \<Rightarrow>
           let s1 = s\<lparr>player := player s @ [c], np_random := g\<rparr>
           in if is_bust (player s1) then returns s1 (- 1) True else returns s1 0 False)
      else if action = 0 then
        (let s1 = play_dealer s in returns s1 (payout s1) True)
      else if action = 2 then
        (case draw_card (np_random s) of (c, g) \<Rightarrow>
           let s1 = play_dealer (s\<lparr>player := player s @ [c], np_random := g\<rparr>)
           in returns s1 (payout s1 * 2) True)
      else (case get_obs s of Inl e \<Rightarrow> (Inl e, s) | Inr _ \<Rightarrow> (Inl UnboundLocalError, s)))"

text \<open>
  \<^verbatim>\<open>def reset(self):
      self.dealer = draw_hand(self.np_random)
      self.player = draw_hand(self.np_random)
      return self._get_obs()\<close>
\<close>

definition BlackjackEnv_reset :: "BlackjackEnv \<Rightarrow> (error + obs) \<times> BlackjackEnv" where
  "BlackjackEnv_reset s =
     (case draw_hand (np_random s) of (d, g1) \<Rightarrow>
      case draw_hand g1 of (p, g2) \<Rightarrow>
        let s1 = s\<lparr>dealer := d, player := p, np_random := g2\<rparr> in (get_obs s1, s1))"

section \<open>The finite shoe: class Deck\<close>

text \<open>
  \<^verbatim>\<open>Deck\<close> has the one field \<^verbatim>\<open>cards\<close>, named \<open>deck_cards\<close> here because the finite
  simulator has a field \<^verbatim>\<open>cards\<close> of its own.
  \<^verbatim>\<open>def reset(self):
      self.cards = [i for i in range(1, 11)]*4
      self.cards += (4*3)*[10]\<close>
\<close>

record Deck =
  deck_cards :: "int list"

definition full_cards :: "int list" where
  "full_cards = concat (replicate 4 [1..10]) @ replicate (4 * 3) 10"

definition Deck_reset :: "Deck \<Rightarrow> Deck" where
  "Deck_reset d = d\<lparr>deck_cards := full_cards\<rparr>"

text \<open>\<^verbatim>\<open>del xs[n]\<close> for an index \<open>n\<close> in range.\<close>

definition del_item :: "'a list \<Rightarrow> nat \<Rightarrow> 'a list" where
  "del_item xs n = take n xs @ drop (Suc n) xs"

text \<open>
  \<^verbatim>\<open>def draw(self):
      reseted = False
      n = np.random.randint(0, len(self.cards))
      card = self.cards[n]
      del self.cards[n]
      if len(self.cards) == 0:
          self.reset()
          reseted = True
      return card, reseted\<close>
  \<^verbatim>\<open>np.random.randint(0, 0)\<close> raises ValueError; otherwise the index is the head of the
  random stream modulo the number of cards, so every index in range can be chosen.
\<close>

definition Deck_draw :: "Deck \<Rightarrow> nat stream \<Rightarrow> (error + int \<times> bool) \<times> Deck \<times> nat stream" where
  "Deck_draw d g =
     (if length (deck_cards d) = 0 then (Inl ValueError, d, g)
      else
        let n = shd g mod length (deck_cards d);
            card = deck_cards d ! n;
            d1 = d\<lparr>deck_cards := del_item (deck_cards d) n\<rparr>
        in if length (deck_cards d1) = 0
           then (Inr (card, True), Deck_reset d1, stl g)
           else (Inr (card, False), d1, stl g))"

text \<open>
  \<open>draws k\<close> is \<open>k\<close> successive calls of \<^verbatim>\<open>Deck.draw\<close> on the same shoe, collecting the
  returned pairs; an exception ends the sequence.
\<close>

fun draws :: "nat \<Rightarrow> Deck \<Rightarrow> nat stream \<Rightarrow> (error + (int \<times> bool) list) \<times> Deck \<times> nat stream" where
  "draws 0 d g = (Inr [], d, g)"
| "draws (Suc k) d g =
     (case Deck_draw d g of
        (Inl e, d1, g1) \<Rightarrow> (Inl e, d1, g1)
      | (Inr r, d1, g1) \<Rightarrow>
          (case draws k d1 g1 of
             (Inl e, d2, g2) \<Rightarrow> (Inl e, d2, g2)
           | (Inr rs, d2, g2) \<Rightarrow> (Inr (r # rs), d2, g2)))"

section \<open>The finite-deck simulator: class MyBlackjackEnv\<close>

text \<open>
  \<open>MyBlackjackEnv\<close> adds the shoe \<^verbatim>\<open>deck\<close> and the exposure record \<^verbatim>\<open>cards\<close> to the
  common fields. It draws through the module's global generator \<^verbatim>\<open>np.random\<close>, which
  is passed to every function and returned by it.
\<close>

record MyBlackjackEnv = Table +
  deck :: Deck
  cards :: "int list"

text \<open>
  The block that every draw of the finite simulator goes through (lines 156 to 160,
  171 to 176, 182 to 186, 190 to 194, 212 to 216 and 219 to 223):
  \<^verbatim>\<open>card, reseted_ = self.deck.draw()
  self.cards.append(card)
  if reseted_:
      self.cards = []
      reseted = True\<close>
  The argument \<open>reseted\<close> is the local flag of the calling method; the drawn card is
  \<open>c\<close>. The append of the card to a hand, which follows the block (in the stick loop it
  stands between the append and the test), touches another field and is left to the
  caller.
\<close>

definition draw_exposed ::
  "MyBlackjackEnv \<Rightarrow> nat stream \<Rightarrow> bool \<Rightarrow> (error + int) \<times> MyBlackjackEnv \<times> nat stream \<times> bool" where
  "draw_exposed s g reseted =
     (case Deck_draw (deck s) g of
        (Inl e, d, g1) \<Rightarrow> (Inl e, s\<lparr>deck := d\<rparr>, g1, reseted)
      | (Inr (c, reseted_), d, g1) \<Rightarrow>
          let s1 = s\<lparr>deck := d, cards := cards s @ [c]\<rparr>
          in if reseted_ then (Inr c, s1\<lparr>cards := []\<rparr>, g1, True)
             else (Inr c, s1, g1, reseted))"

lemma full_cards_eq:
  "full_cards =
     [1, 2, 3, 4, 5, 6, 7, 8, 9, 10, 1, 2, 3, 4, 5, 6, 7, 8, 9, 10,
      1, 2, 3, 4, 5, 6, 7, 8, 9, 10, 1, 2, 3, 4, 5, 6, 7, 8, 9, 10,
      10, 10, 10, 10, 10, 10, 10, 10, 10, 10, 10, 10]"
  by code_simp

lemma full_cards_range: "c \<in> set full_cards \<Longrightarrow> 1 \<le> c \<and> c \<le> 10"
  by (auto simp: full_cards_eq)

lemma length_full_cards: "length full_cards = 52"
  by (simp add: full_cards_eq)

lemma set_del_item: "set (del_item xs n) \<subseteq> set xs"
  unfolding del_item_def using set_take_subset [of n xs] set_drop_subset [of "Suc n" xs]
  by auto

lemma length_del_item: "n < length xs \<Longrightarrow> length (del_item xs n) = length xs - 1"
  by (auto simp: del_item_def)

lemma Deck_draw_empty: "deck_cards d = [] \<Longrightarrow> Deck_draw d g = (Inl ValueError, d, g)"
  by (simp add: Deck_draw_def)

lemma Deck_draw_nonempty:
  assumes "deck_cards d \<noteq> []"
  shows "Deck_draw d g =
     (Inr (deck_cards d ! (shd g mod length (deck_cards d)), length (deck_cards d) = 1),
      (if length (deck_cards d) = 1 then Deck_reset d
       else d\<lparr>deck_cards := del_item (deck_cards d) (shd g mod length (deck_cards d))\<rparr>),
      stl g)"
proof -
  have n: "shd g mod length (deck_cards d) < length (deck_cards d)" using assms by simp
  have "length (del_item (deck_cards d) (shd g mod length (deck_cards d))) = 0
        \<longleftrightarrow> length (deck_cards d) = 1"
    using length_del_item [OF n] assms by (cases "deck_cards d") auto
  then show ?thesis using assms
    by (simp add: Deck_draw_def Let_def Deck_reset_def)
qed

lemma mset_del_item:
  "n < length xs \<Longrightarrow> add_mset (xs ! n) (mset (del_item xs n)) = mset xs"
proof -
  assume n: "n < length xs"
  have "mset xs = mset (take n xs @ xs ! n # drop (Suc n) xs)"
    using id_take_nth_drop [OF n] by simp
  then show ?thesis by (simp add: del_item_def)
qed

lemma count_full_cards:
  "count (mset full_cards) v = (if 1 \<le> v \<and> v \<le> 9 then 4 else if v = 10 then 16 else 0)"
  by (simp add: full_cards_eq) arith

lemma draws_exhaust:
  "length (deck_cards d) = Suc k \<Longrightarrow>
   \<exists>rs g1. draws (Suc k) d g = (Inr rs, Deck_reset d, g1)
     \<and> map snd rs = replicate k False @ [True]
     \<and> mset (map fst rs) = mset (deck_cards d)"
proof (induction k arbitrary: d g)
  case 0
  then have ne: "deck_cards d \<noteq> []" by auto
  have "deck_cards d = [deck_cards d ! 0]" using 0 by (cases "deck_cards d") auto
  then have "mset (deck_cards d) = {#deck_cards d ! 0#}" by (metis mset_single_iff_right)
  then show ?case using 0 by (simp add: Deck_draw_nonempty [OF ne])
next
  case (Suc k)
  then have ne: "deck_cards d \<noteq> []" by auto
  let ?n = "shd g mod length (deck_cards d)"
  let ?d1 = "d\<lparr>deck_cards := del_item (deck_cards d) ?n\<rparr>"
  have n: "?n < length (deck_cards d)" using ne by simp
  have dd: "Deck_draw d g = (Inr (deck_cards d ! ?n, False), ?d1, stl g)"
    using Suc.prems by (simp add: Deck_draw_nonempty [OF ne])
  have len1: "length (deck_cards ?d1) = Suc k"
    using length_del_item [OF n] Suc.prems by simp
  obtain rs g1 where rs: "draws (Suc k) ?d1 (stl g) = (Inr rs, Deck_reset ?d1, g1)"
      "map snd rs = replicate k False @ [True]"
      "mset (map fst rs) = mset (deck_cards ?d1)"
    using Suc.IH [OF len1, of "stl g"] by blast
  have res: "Deck_reset ?d1 = Deck_reset d" by (simp add: Deck_reset_def)
  have "draws (Suc (Suc k)) d g = (Inr ((deck_cards d ! ?n, False) # rs), Deck_reset d, g1)"
    using dd rs(1) res by (simp del: draws.simps(2) add: draws.simps(2) [of "Suc k"])
  moreover have "mset (map fst ((deck_cards d ! ?n, False) # rs)) = mset (deck_cards d)"
    using rs(3) mset_del_item [OF n] by simp
  moreover have "map snd ((deck_cards d ! ?n, False) # rs) = replicate (Suc k) False @ [True]"
    using rs(2) by simp
  ultimately show ?case by blast
qed

lemma Deck_draw_keeps_nonempty:
  assumes "deck_cards d \<noteq> []"
  shows "\<exists>c r d1. Deck_draw d g = (Inr (c, r), d1, stl g) \<and> deck_cards d1 \<noteq> []
     \<and> c \<in> set (deck_cards d)"
proof -
  let ?n = "shd g mod length (deck_cards d)"
  have n: "?n < length (deck_cards d)" using assms by simp
  have "length (deck_cards d) \<noteq> 1 \<Longrightarrow> del_item (deck_cards d) ?n \<noteq> []"
    using length_del_item [OF n] assms by (cases "deck_cards d") auto
  moreover have "full_cards \<noteq> []" by (simp add: full_cards_eq)
  ultimately show ?thesis
    using nth_mem [OF n] by (simp add: Deck_draw_nonempty [OF assms] Deck_reset_def)
qed

lemma draw_exposed_empty:
  "deck_cards (deck s) = [] \<Longrightarrow> draw_exposed s g reseted = (Inl ValueError, s, g, reseted)"
  by (simp add: draw_exposed_def Deck_draw_empty)

lemma draw_exposed_nonempty:
  assumes "deck_cards (deck s) \<noteq> []"
  shows "draw_exposed s g reseted =
     (Inr (deck_cards (deck s) ! (shd g mod length (deck_cards (deck s)))),
      (if length (deck_cards (deck s)) = 1
       then s\<lparr>deck := Deck_reset (deck s), cards := []\<rparr>
       else s\<lparr>deck := (deck s)\<lparr>deck_cards :=
                  del_item (deck_cards (deck s)) (shd g mod length (deck_cards (deck s)))\<rparr>,
              cards := cards s @ [deck_cards (deck s) ! (shd g mod length (deck_cards (deck s)))]\<rparr>),
      stl g,
      reseted \<or> length (deck_cards (deck s)) = 1)"
  by (simp add: draw_exposed_def Deck_draw_nonempty [OF assms] Let_def)

text \<open>
  The dealer's loop of the finite simulator, lines 170 to 176 (and 189 to 195):
  \<^verbatim>\<open>while sum_hand(self.dealer) < 17:
      card, reseted_ = self.deck.draw()
      self.cards.append(card)
      self.dealer.append(card)
      if reseted_:
          self.cards = []
          reseted = True\<close>
  The first component of the result is the exception that ended the loop, if any. The
  loop terminates from every state: a shoe that holds a card below 1 shrinks until it is
  refilled, and from a shoe of cards that are at least 1 the dealer's sum grows.
\<close>

definition shoe_positive :: "MyBlackjackEnv \<Rightarrow> bool" where
  "shoe_positive s = list_all (\<lambda>c. 1 \<le> c) (deck_cards (deck s))"

function dealer_draws ::
  "MyBlackjackEnv \<Rightarrow> nat stream \<Rightarrow> bool \<Rightarrow> error option \<times> MyBlackjackEnv \<times> nat stream \<times> bool" where
  "dealer_draws s g reseted =
     (if sum_hand (dealer s) < 17 then
        (case draw_exposed s g reseted of
           (Inl e, s1, g1, r1) \<Rightarrow> (Some e, s1, g1, r1)
         | (Inr c, s1, g1, r1) \<Rightarrow> dealer_draws (s1\<lparr>dealer := dealer s1 @ [c]\<rparr>) g1 r1)
      else (None, s, g, reseted))"
  by pat_completeness auto
termination
proof (relation "measures
    [\<lambda>(s, g, r). if shoe_positive s then 0 else 1,
     \<lambda>(s, g, r). if shoe_positive s then nat (17 - sum_list (dealer s))
                  else length (deck_cards (deck s))]", goal_cases)
  case 1
  show ?case by simp
next
  case (2 s g reseted x y c s1 z g1 r1)
  then have de: "draw_exposed s g reseted = (Inr c, s1, g1, r1)" by simp
  have ne: "deck_cards (deck s) \<noteq> []"
    using de draw_exposed_empty [of s g reseted] by auto
  let ?n = "shd g mod length (deck_cards (deck s))"
  have n: "?n < length (deck_cards (deck s))" using ne by simp
  have c: "c = deck_cards (deck s) ! ?n"
    using de draw_exposed_nonempty [OF ne, of g reseted] by simp
  have cmem: "c \<in> set (deck_cards (deck s))" unfolding c using n by (rule nth_mem)
  have lt: "sum_list (dealer s) < 17"
    using 2(1) sum_le_sum_hand [of "dealer s"] by linarith
  show ?case
  proof (cases "length (deck_cards (deck s)) = 1")
    case True
    then have s1: "s1 = s\<lparr>deck := Deck_reset (deck s), cards := []\<rparr>"
      using de draw_exposed_nonempty [OF ne, of g reseted] by simp
    have pos1: "shoe_positive (s1\<lparr>dealer := dealer s1 @ [c]\<rparr>)"
      using full_cards_range by (auto simp: s1 shoe_positive_def Deck_reset_def list_all_iff)
    show ?thesis
    proof (cases "shoe_positive s")
      case True
      then have "1 \<le> c" using cmem by (auto simp: shoe_positive_def list_all_iff)
      then show ?thesis using True pos1 lt by (simp add: s1)
    next
      case False
      then show ?thesis using pos1 by simp
    qed
  next
    case False
    then have s1: "s1 = s\<lparr>deck := (deck s)\<lparr>deck_cards := del_item (deck_cards (deck s)) ?n\<rparr>,
              cards := cards s @ [c]\<rparr>"
      using de draw_exposed_nonempty [OF ne, of g reseted] c by simp
    have len: "length (deck_cards (deck s1)) < length (deck_cards (deck s))"
      using length_del_item [OF n] ne by (simp add: s1)
    show ?thesis
    proof (cases "shoe_positive s")
      case True
      then have "1 \<le> c" using cmem by (auto simp: shoe_positive_def list_all_iff)
      moreover have "shoe_positive (s1\<lparr>dealer := dealer s1 @ [c]\<rparr>)"
        using True set_del_item [of "deck_cards (deck s)" ?n]
        by (auto simp: s1 shoe_positive_def list_all_iff)
      ultimately show ?thesis using True lt by (simp add: s1)
    next
      case False
      then show ?thesis using len by (simp add: shoe_positive_def)
    qed
  qed
qed

declare dealer_draws.simps [simp del]

text \<open>
  The tail of \<^verbatim>\<open>MyBlackjackEnv.step\<close>,
  \<^verbatim>\<open>return self._get_obs(), reward, done, reseted\<close>.
\<close>

definition my_returns ::
  "MyBlackjackEnv \<Rightarrow> nat stream \<Rightarrow> rat \<Rightarrow> bool \<Rightarrow> bool
     \<Rightarrow> (error + obs \<times> rat \<times> bool \<times> bool) \<times> MyBlackjackEnv \<times> nat stream" where
  "my_returns s g reward done reseted =
     (case get_obs s of
        Inl e \<Rightarrow> (Inl e, s, g)
      | Inr ob \<Rightarrow> (Inr (ob, reward, done, reseted), s, g))"

text \<open>
  \<^verbatim>\<open>MyBlackjackEnv.step\<close>, lines 153 to 201. There is no assertion on the action here:
  for an action outside \<open>{0, 1, 2}\<close> no branch runs, and the \<^verbatim>\<open>return\<close> statement
  evaluates \<^verbatim>\<open>self._get_obs()\<close> and then the unbound local \<^verbatim>\<open>reward\<close>, which raises
  UnboundLocalError.
\<close>

definition MyBlackjackEnv_step ::
  "MyBlackjackEnv \<Rightarrow> nat stream \<Rightarrow> int
     \<Rightarrow> (error + obs \<times> rat \<times> bool \<times> bool) \<times> MyBlackjackEnv \<times> nat stream" where
  "MyBlackjackEnv_step s g action =
     (if action = 1 then
        (case draw_exposed s g False of
           (Inl e, s1, g1, r1) \<Rightarrow> (Inl e, s1, g1)
         | (Inr c, s1, g1, r1) \<Rightarrow>
             let s2 = s1\<lparr>player := player s1 @ [c]\<rparr>
             in if is_bust (player s2) then my_returns s2 g1 (- 1) True r1
                else my_returns s2 g1 0 False r1)
      else if action = 0 then
        (case dealer_draws s g False of
           (Some e, s1, g1, r1) \<Rightarrow> (Inl e, s1, g1)
         | (None, s1, g1, r1) \<Rightarrow> my_returns s1 g1 (payout s1) True r1)
      else if action = 2 then
        (case draw_exposed s g False of
           (Inl e, s1, g1, r1) \<Rightarrow> (Inl e, s1, g1)
         | (Inr c, s1, g1, r1) \<Rightarrow>
             (case dealer_draws (s1\<lparr>player := player s1 @ [c]\<rparr>) g1 r1 of
                (Some e, s2, g2, r2) \<Rightarrow> (Inl e, s2, g2)
              | (None, s2, g2, r2) \<Rightarrow> my_returns s2 g2 (payout s2 * 2) True r2))
      else (case get_obs s of
              Inl e \<Rightarrow> (Inl e, s, g)
            | Inr _ \<Rightarrow> (Inl UnboundLocalError, s, g)))"

text \<open>
  \<^verbatim>\<open>MyBlackjackEnv.reset\<close>, lines 206 to 225: the hands are emptied, then two cards go
  to the dealer and two to the player, each through the draw block. The shoe and the
  exposure record are not reset. \<open>deal to_dealer\<close> is one iteration of either loop.
\<close>

definition deal ::
  "bool \<Rightarrow> MyBlackjackEnv \<Rightarrow> nat stream \<Rightarrow> bool \<Rightarrow> error option \<times> MyBlackjackEnv \<times> nat stream \<times> bool" where
  "deal to_dealer s g reseted =
     (case draw_exposed s g reseted of
        (Inl e, s1, g1, r1) \<Rightarrow> (Some e, s1, g1, r1)
      | (Inr c, s1, g1, r1) \<Rightarrow>
          (None,
           (if to_dealer then s1\<lparr>dealer := dealer s1 @ [c]\<rparr>
            else s1\<lparr>player := player s1 @ [c]\<rparr>),
           g1, r1))"

fun deals ::
  "bool list \<Rightarrow> MyBlackjackEnv \<Rightarrow> nat stream \<Rightarrow> bool \<Rightarrow> error option \<times> MyBlackjackEnv \<times> nat stream \<times> bool" where
  "deals [] s g reseted = (None, s, g, reseted)"
| "deals (to_dealer # rest) s g reseted =
     (case deal to_dealer s g reseted of
        (Some e, s1, g1, r1) \<Rightarrow> (Some e, s1, g1, r1)
      | (None, s1, g1, r1) \<Rightarrow> deals rest s1 g1 r1)"

definition MyBlackjackEnv_reset ::
  "MyBlackjackEnv \<Rightarrow> nat stream
     \<Rightarrow> (error + obs \<times> rat \<times> bool \<times> bool) \<times> MyBlackjackEnv \<times> nat stream" where
  "MyBlackjackEnv_reset s g =
     (case deals [True, True, False, False] (s\<lparr>player := [], dealer := []\<rparr>) g False of
        (Some e, s1, g1, r1) \<Rightarrow> (Inl e, s1, g1)
      | (None, s1, g1, r1) \<Rightarrow> my_returns s1 g1 0 False r1)"

text \<open>
  \<^verbatim>\<open>def cards_to_index(self):
      index = [0]*10
      for card in self.cards:
          index[card-1] += 1
      return index\<close>
  A Python list index below 0 counts from the end, and one outside \<open>-10 .. 9\<close> raises
  IndexError.
\<close>

fun count_cards :: "int list \<Rightarrow> int list \<Rightarrow> error + int list" where
  "count_cards index [] = Inr index"
| "count_cards index (c # rest) =
     (let i = c - 1;
          j = (if i < 0 then i + int (length index) else i)
      in if 0 \<le> j \<and> j < int (length index)
         then count_cards (index[nat j := index ! nat j + 1]) rest
         else Inl IndexError)"

definition cards_to_index :: "MyBlackjackEnv \<Rightarrow> error + int list" where
  "cards_to_index s = count_cards (replicate 10 0) (cards s)"

text \<open>
  The constructor, \<^verbatim>\<open>MyBlackjackEnv.__init__\<close>: a full shoe, empty hands and an empty
  exposure record.
\<close>

definition MyBlackjackEnv_init :: "bool \<Rightarrow> MyBlackjackEnv" where
  "MyBlackjackEnv_init nat_flag =
     \<lparr>natural = nat_flag, player = [], dealer = [],
      deck = Deck_reset \<lparr>deck_cards = []\<rparr>, cards = []\<rparr>"

section \<open>Predicates of the specification\<close>

text \<open>
  \<open>drawn_below_17 d ds\<close>: the cards \<open>ds\<close> were appended to the dealer hand \<open>d\<close> one at a
  time, each at a moment when the dealer's total was below 17.
\<close>

definition drawn_below_17 :: "int list \<Rightarrow> int list \<Rightarrow> bool" where
  "drawn_below_17 d ds = (\<forall>k < length ds. sum_hand (d @ take k ds) < 17)"

text \<open>
  \<open>exposure_ok s\<close>: the shoe is not empty, and the exposure record together with the shoe
  is the full 52-card composition, that is, the record holds exactly the cards that are
  missing from the shoe since it was last filled.
\<close>

definition exposure_ok :: "MyBlackjackEnv \<Rightarrow> bool" where
  "exposure_ok s =
     (deck_cards (deck s) \<noteq> []
      \<and> mset (cards s) + mset (deck_cards (deck s)) = mset full_cards)"

text \<open>
  The states of the documented cycle, reset, then any number of steps, then reset again.
  \<^verbatim>\<open>BlackjackEnv.__init__\<close> sets the fields and calls \<^verbatim>\<open>self.reset()\<close>, so a state of
  \<open>BlackjackEnv\<close> is the result of a reset or of a step from such a state.
  \<^verbatim>\<open>MyBlackjackEnv.__init__\<close> leaves both hands empty; its episodes start with the first
  call of \<^verbatim>\<open>reset\<close> on the constructed state.
\<close>

inductive in_episode :: "BlackjackEnv \<Rightarrow> bool" where
  after_reset: "in_episode (snd (BlackjackEnv_reset s))"
| after_step: "in_episode s \<Longrightarrow> in_episode (snd (BlackjackEnv_step s action))"

inductive my_in_episode :: "MyBlackjackEnv \<Rightarrow> bool" where
  first_reset: "my_in_episode (fst (snd (MyBlackjackEnv_reset (MyBlackjackEnv_init n) g)))"
| next_reset: "my_in_episode s \<Longrightarrow> my_in_episode (fst (snd (MyBlackjackEnv_reset s g)))"
| next_step: "my_in_episode s \<Longrightarrow> my_in_episode (fst (snd (MyBlackjackEnv_step s g action)))"

section \<open>Example states\<close>

text \<open>Concrete states at which the theorems below are evaluated.\<close>

definition env_16 :: BlackjackEnv where
  "env_16 = \<lparr>natural = False, player = [10, 9], dealer = [10, 6], double = False,
             np_random = sconst 0\<rparr>"

definition my_env_16 :: MyBlackjackEnv where
  "my_env_16 = \<lparr>natural = False, player = [10, 9], dealer = [10, 6],
                deck = \<lparr>deck_cards = [1, 5, 10]\<rparr>, cards = [2]\<rparr>"

definition env_natural :: BlackjackEnv where
  "env_natural = \<lparr>natural = True, player = [1, 10], dealer = [10, 10], double = False,
                  np_random = sconst 0\<rparr>"

definition my_env_natural :: MyBlackjackEnv where
  "my_env_natural = \<lparr>natural = True, player = [1, 10], dealer = [10, 6],
                     deck = \<lparr>deck_cards = [4, 5, 10]\<rparr>, cards = [2]\<rparr>"

definition env_double_bust :: BlackjackEnv where
  "env_double_bust = \<lparr>natural = False, player = [10, 6], dealer = [10, 8], double = False,
                      np_random = sconst 9\<rparr>"

definition my_env_double :: MyBlackjackEnv where
  "my_env_double = \<lparr>natural = False, player = [5, 6], dealer = [10, 8],
                    deck = \<lparr>deck_cards = [10, 4, 5]\<rparr>, cards = [2]\<rparr>"

definition env_fresh :: BlackjackEnv where
  "env_fresh = \<lparr>natural = False, player = [], dealer = [], double = False,
                np_random = 9 ## 9 ## 9 ## 9 ## sconst 4\<rparr>"

definition tens_then_five :: "nat stream" where
  "tens_then_five = 40 ## 40 ## 40 ## 40 ## sconst 4"

text \<open>
  A state with one card left in the shoe, the other 51 cards in the exposure record.
\<close>

definition last_card_env :: MyBlackjackEnv where
  "last_card_env = \<lparr>natural = False, player = [10, 6], dealer = [10, 7],
                    deck = \<lparr>deck_cards = [5]\<rparr>, cards = del_item full_cards 4\<rparr>"

lemmas eval_defs =
  BlackjackEnv_step_def returns_def get_obs_def payout_def cmp_def score_def is_bust_def
  sum_hand_def usable_ace_def is_natural_def draw_card_def deck_values_def
  MyBlackjackEnv_step_def my_returns_def draw_exposed_def Deck_draw_def Deck_reset_def
  del_item_def Let_def

section \<open>Properties of the scoring functions\<close>

lemma sum_hand_le: "sum_hand hand \<le> sum_list hand + 10"
  by (simp add: sum_hand_def)

lemma usable_ace_not_bust: "usable_ace hand \<Longrightarrow> \<not> is_bust hand"
  by (simp add: is_bust_def sum_hand_def usable_ace_def)

lemma score_range: "score hand = 0 \<or> score hand = sum_hand hand"
  by (simp add: score_def)

lemma is_natural_length: "is_natural hand \<Longrightarrow> length hand = 2"
proof -
  assume "is_natural hand"
  then have "length (sort hand) = length [1, 10 :: int]"
    by (simp add: is_natural_def)
  then show ?thesis by simp
qed

lemma cmp_values: "cmp a b = -1 \<or> cmp a b = 0 \<or> cmp a b = 1"
  by (simp add: cmp_def)

lemma cmp_sign: "cmp a b = of_int (sgn (a - b))"
  by (simp add: cmp_def sgn_if)

section \<open>The dealer's loops and the draw block\<close>

lemma drawn_below_17_Nil: "drawn_below_17 d []"
  by (simp add: drawn_below_17_def)

lemma drawn_below_17_Cons:
  assumes "sum_hand d < 17" and "drawn_below_17 (d @ [c]) ds"
  shows "drawn_below_17 d (c # ds)"
  unfolding drawn_below_17_def
proof (intro allI impI)
  fix k assume k: "k < length (c # ds)"
  show "sum_hand (d @ take k (c # ds)) < 17"
  proof (cases k)
    case 0
    then show ?thesis using assms(1) by simp
  next
    case (Suc j)
    then have "j < length ds" using k by simp
    then have "sum_hand ((d @ [c]) @ take j ds) < 17"
      using assms(2) by (simp add: drawn_below_17_def)
    then show ?thesis using Suc by simp
  qed
qed

lemma sum_hand_Nil: "sum_hand [] = 0"
  by (simp add: sum_hand_def usable_ace_def)

lemma play_dealer_stop: "\<not> sum_hand (dealer s) < 17 \<Longrightarrow> play_dealer s = s"
  by (subst play_dealer.simps) simp

lemma play_dealer_step:
  "sum_hand (dealer s) < 17 \<Longrightarrow>
   play_dealer s =
     play_dealer (s\<lparr>dealer := dealer s @ [fst (draw_card (np_random s))],
                    np_random := snd (draw_card (np_random s))\<rparr>)"
  by (subst play_dealer.simps) (simp add: case_prod_beta)

lemma play_dealer_props:
  "17 \<le> sum_hand (dealer (play_dealer s))
   \<and> player (play_dealer s) = player s
   \<and> natural (play_dealer s) = natural s
   \<and> double (play_dealer s) = double s
   \<and> (\<exists>ds. dealer (play_dealer s) = dealer s @ ds \<and> drawn_below_17 (dealer s) ds)"
proof (induction s rule: play_dealer.induct)
  case (1 s)
  show ?case
  proof (cases "sum_hand (dealer s) < 17")
    case False
    then show ?thesis using drawn_below_17_Nil by (simp add: play_dealer_stop)
  next
    case True
    let ?c = "fst (draw_card (np_random s))"
    let ?s1 = "s\<lparr>dealer := dealer s @ [?c], np_random := snd (draw_card (np_random s))\<rparr>"
    have eq: "play_dealer s = play_dealer ?s1" using True by (rule play_dealer_step)
    have IH: "17 \<le> sum_hand (dealer (play_dealer ?s1))
       \<and> player (play_dealer ?s1) = player ?s1
       \<and> natural (play_dealer ?s1) = natural ?s1
       \<and> double (play_dealer ?s1) = double ?s1
       \<and> (\<exists>ds. dealer (play_dealer ?s1) = dealer ?s1 @ ds \<and> drawn_below_17 (dealer ?s1) ds)"
      using "1.IH" [OF True prod.collapse] by simp
    then obtain ds where ds: "dealer (play_dealer ?s1) = dealer ?s1 @ ds"
        "drawn_below_17 (dealer ?s1) ds" by blast
    have "dealer (play_dealer s) = dealer s @ (?c # ds)" using ds(1) eq by simp
    moreover have "drawn_below_17 (dealer s) (?c # ds)"
      using drawn_below_17_Cons [OF True] ds(2) by simp
    ultimately show ?thesis using IH eq by auto
  qed
qed

lemma draw_exposed_ok:
  assumes "deck_cards (deck s) \<noteq> []"
  shows "\<exists>c s1. draw_exposed s g reseted
            = (Inr c, s1, stl g, reseted \<or> length (deck_cards (deck s)) = 1)
     \<and> c = deck_cards (deck s) ! (shd g mod length (deck_cards (deck s)))
     \<and> player s1 = player s \<and> dealer s1 = dealer s \<and> natural s1 = natural s
     \<and> deck_cards (deck s1) \<noteq> []
     \<and> cards s1 = (if length (deck_cards (deck s)) = 1 then [] else cards s @ [c])
     \<and> deck_cards (deck s1) =
          (if length (deck_cards (deck s)) = 1 then full_cards
           else del_item (deck_cards (deck s)) (shd g mod length (deck_cards (deck s))))"
proof -
  let ?n = "shd g mod length (deck_cards (deck s))"
  have n: "?n < length (deck_cards (deck s))" using assms by simp
  have "length (deck_cards (deck s)) \<noteq> 1 \<Longrightarrow> del_item (deck_cards (deck s)) ?n \<noteq> []"
    using length_del_item [OF n] assms by (cases "deck_cards (deck s)") auto
  moreover have "full_cards \<noteq> []" by (simp add: full_cards_eq)
  ultimately show ?thesis
    by (simp add: draw_exposed_nonempty [OF assms] Deck_reset_def)
qed

lemma draw_exposed_exposure:
  assumes "exposure_ok s" and "draw_exposed s g reseted = (Inr c, s1, g1, r1)"
  shows "exposure_ok s1"
proof -
  have ne: "deck_cards (deck s) \<noteq> []" using assms(1) by (simp add: exposure_ok_def)
  let ?n = "shd g mod length (deck_cards (deck s))"
  have n: "?n < length (deck_cards (deck s))" using ne by simp
  obtain c' s1' where
      a: "draw_exposed s g reseted
            = (Inr c', s1', stl g, reseted \<or> length (deck_cards (deck s)) = 1)"
      and c': "c' = deck_cards (deck s) ! ?n"
      and ne1: "deck_cards (deck s1') \<noteq> []"
      and cs: "cards s1' = (if length (deck_cards (deck s)) = 1 then [] else cards s @ [c'])"
      and dk: "deck_cards (deck s1') =
          (if length (deck_cards (deck s)) = 1 then full_cards
           else del_item (deck_cards (deck s)) ?n)"
    using draw_exposed_ok [OF ne, of g reseted] by blast
  have s1: "s1 = s1'" using a assms(2) by simp
  show ?thesis
  proof (cases "length (deck_cards (deck s)) = 1")
    case True
    then show ?thesis using ne1 cs dk by (simp add: s1 exposure_ok_def)
  next
    case False
    have "mset (cards s1') + mset (deck_cards (deck s1'))
        = mset (cards s) + add_mset c' (mset (del_item (deck_cards (deck s)) ?n))"
      using False cs dk by simp
    also have "\<dots> = mset (cards s) + mset (deck_cards (deck s))"
      using mset_del_item [OF n] c' by simp
    finally show ?thesis using assms(1) ne1 by (simp add: s1 exposure_ok_def)
  qed
qed

lemma dealer_draws_stop:
  "\<not> sum_hand (dealer s) < 17 \<Longrightarrow> dealer_draws s g reseted = (None, s, g, reseted)"
  by (subst dealer_draws.simps) simp

lemma dealer_draws_step:
  "sum_hand (dealer s) < 17 \<Longrightarrow> draw_exposed s g reseted = (Inr c, s1, g1, r1) \<Longrightarrow>
   dealer_draws s g reseted = dealer_draws (s1\<lparr>dealer := dealer s1 @ [c]\<rparr>) g1 r1"
  by (subst dealer_draws.simps) simp

lemma dealer_draws_props:
  assumes "deck_cards (deck s) \<noteq> []"
  shows "\<exists>s' g' r'. dealer_draws s g reseted = (None, s', g', r')
     \<and> 17 \<le> sum_hand (dealer s')
     \<and> player s' = player s \<and> natural s' = natural s
     \<and> deck_cards (deck s') \<noteq> []
     \<and> (exposure_ok s \<longrightarrow> exposure_ok s')
     \<and> (\<exists>ds. dealer s' = dealer s @ ds \<and> drawn_below_17 (dealer s) ds)"
  using assms
proof (induction s g reseted rule: dealer_draws.induct)
  case (1 s g reseted)
  show ?case
  proof (cases "sum_hand (dealer s) < 17")
    case False
    then show ?thesis using drawn_below_17_Nil "1.prems"
      by (simp add: dealer_draws_stop)
  next
    case True
    obtain c s1 where
        a: "draw_exposed s g reseted
            = (Inr c, s1, stl g, reseted \<or> length (deck_cards (deck s)) = 1)"
        and p: "player s1 = player s" "dealer s1 = dealer s" "natural s1 = natural s"
        and ne1: "deck_cards (deck s1) \<noteq> []"
      using draw_exposed_ok [OF "1.prems", of g reseted] by blast
    let ?s2 = "s1\<lparr>dealer := dealer s1 @ [c]\<rparr>"
    let ?r = "reseted \<or> length (deck_cards (deck s)) = 1"
    have eq: "dealer_draws s g reseted = dealer_draws ?s2 (stl g) ?r"
      using dealer_draws_step [OF True a] .
    have "\<exists>s' g' r'. dealer_draws ?s2 (stl g) ?r = (None, s', g', r')
       \<and> 17 \<le> sum_hand (dealer s')
       \<and> player s' = player ?s2 \<and> natural s' = natural ?s2
       \<and> deck_cards (deck s') \<noteq> []
       \<and> (exposure_ok ?s2 \<longrightarrow> exposure_ok s')
       \<and> (\<exists>ds. dealer s' = dealer ?s2 @ ds \<and> drawn_below_17 (dealer ?s2) ds)"
      using "1.IH" [OF True a [symmetric] refl refl refl] ne1 by simp
    then obtain s' g' r' ds where
        r: "dealer_draws ?s2 (stl g) ?r = (None, s', g', r')"
        and q: "17 \<le> sum_hand (dealer s')" "player s' = player ?s2" "natural s' = natural ?s2"
          "deck_cards (deck s') \<noteq> []" "exposure_ok ?s2 \<longrightarrow> exposure_ok s'"
        and ds: "dealer s' = dealer ?s2 @ ds" "drawn_below_17 (dealer ?s2) ds"
      by blast
    have e2: "exposure_ok s \<Longrightarrow> exposure_ok ?s2"
      using draw_exposed_exposure [OF _ a] by (simp add: exposure_ok_def)
    have "dealer s' = dealer s @ (c # ds)" using ds(1) p by simp
    moreover have "drawn_below_17 (dealer s) (c # ds)"
      using drawn_below_17_Cons [OF True] ds(2) p by simp
    ultimately show ?thesis using eq r q p e2 by auto
  qed
qed

text \<open>
  The loop only ever sets the flag: started with any flag, it does what it does started
  with \<open>False\<close> and returns the disjunction.
\<close>

lemma dealer_draws_flag:
  fixes reseted :: bool
  shows "dealer_draws s g r =
     (case dealer_draws s g False of (e, s', g', r') \<Rightarrow> (e, s', g', r \<or> r'))"
proof (induction s g reseted arbitrary: r rule: dealer_draws.induct)
  case (1 s g reseted)
  show ?case
  proof (cases "sum_hand (dealer s) < 17")
    case False
    then show ?thesis by (simp add: dealer_draws_stop)
  next
    case lt: True
    show ?thesis
    proof (cases "deck_cards (deck s) = []")
      case True
      then show ?thesis using lt
        by (simp add: dealer_draws.simps [of s g r] dealer_draws.simps [of s g False]
            draw_exposed_empty)
    next
      case False
      let ?l = "length (deck_cards (deck s)) = 1"
      obtain c s1 where
        a: "draw_exposed s g reseted = (Inr c, s1, stl g, reseted \<or> ?l)"
        using draw_exposed_ok [OF False, of g reseted] by blast
      have b: "draw_exposed s g x = (Inr c, s1, stl g, x \<or> ?l)" for x
        using a by (simp add: draw_exposed_nonempty [OF False])
      let ?s2 = "s1\<lparr>dealer := dealer s1 @ [c]\<rparr>"
      have IH: "dealer_draws ?s2 (stl g) x =
          (case dealer_draws ?s2 (stl g) False of (e, s', g', r') \<Rightarrow> (e, s', g', x \<or> r'))" for x
        using "1.IH" [OF lt a [symmetric] refl refl refl] .
      have "dealer_draws s g r = dealer_draws ?s2 (stl g) (r \<or> ?l)"
        using dealer_draws_step [OF lt b] .
      moreover have "dealer_draws s g False = dealer_draws ?s2 (stl g) ?l"
        using dealer_draws_step [OF lt b [of False]] by simp
      ultimately show ?thesis
        using IH [of "r \<or> ?l"] IH [of ?l] by (simp add: case_prod_beta)
    qed
  qed
qed

section \<open>The step functions\<close>

lemma get_obs_dealt:
  "dealer s \<noteq> [] \<Longrightarrow>
   get_obs s = Inr (sum_hand (player s), hd (dealer s), usable_ace (player s))"
  by (cases "dealer s") (auto simp: get_obs_def)

lemma total_17_dealt: "17 \<le> sum_hand d \<Longrightarrow> d \<noteq> []"
  using sum_hand_Nil by auto

lemma drawn_below_17_none:
  assumes "drawn_below_17 d ds" and "17 \<le> sum_hand (d @ ds)"
  shows "(ds = []) = (17 \<le> sum_hand d)"
proof (cases ds)
  case Nil
  then show ?thesis using assms(2) by simp
next
  case (Cons c cs)
  then have "sum_hand (d @ take 0 ds) < 17"
    using assms(1) unfolding drawn_below_17_def by (metis length_greater_0_conv list.distinct(1))
  then show ?thesis using Cons by simp
qed

lemma payout_sign:
  "payout s =
     (if natural s \<and> is_natural (player s) \<and> sgn (score (player s) - score (dealer s)) = 1
      then 3 / 2 else of_int (sgn (score (player s) - score (dealer s))))"
  by (simp add: payout_def cmp_def sgn_if)

lemma BlackjackEnv_stick:
  "BlackjackEnv_step s 0 =
     (Inr ((sum_hand (player s), hd (dealer (play_dealer s)), usable_ace (player s)),
           payout (play_dealer s), True),
      play_dealer s)"
proof -
  have "dealer (play_dealer s) \<noteq> []"
    using play_dealer_props [of s] total_17_dealt by blast
  then show ?thesis
    using play_dealer_props [of s]
    by (simp add: BlackjackEnv_step_def returns_def get_obs_dealt Let_def)
qed

lemma MyBlackjackEnv_stick:
  assumes "deck_cards (deck s) \<noteq> []"
  shows "\<exists>s' g' r'. dealer_draws s g False = (None, s', g', r')
     \<and> MyBlackjackEnv_step s g 0 =
         (Inr ((sum_hand (player s), hd (dealer s'), usable_ace (player s)),
               payout s', True, r'), s', g')
     \<and> 17 \<le> sum_hand (dealer s')
     \<and> player s' = player s \<and> natural s' = natural s
     \<and> deck_cards (deck s') \<noteq> []
     \<and> (exposure_ok s \<longrightarrow> exposure_ok s')
     \<and> (\<exists>ds. dealer s' = dealer s @ ds \<and> drawn_below_17 (dealer s) ds)"
proof -
  obtain s' g' r' where
      d: "dealer_draws s g False = (None, s', g', r')"
      and p: "17 \<le> sum_hand (dealer s')" "player s' = player s" "natural s' = natural s"
        "deck_cards (deck s') \<noteq> []" "exposure_ok s \<longrightarrow> exposure_ok s'"
        "\<exists>ds. dealer s' = dealer s @ ds \<and> drawn_below_17 (dealer s) ds"
    using dealer_draws_props [OF assms, of g False] by blast
  have "dealer s' \<noteq> []" using p(1) by (rule total_17_dealt)
  then have "MyBlackjackEnv_step s g 0 =
         (Inr ((sum_hand (player s), hd (dealer s'), usable_ace (player s)),
               payout s', True, r'), s', g')"
    using d p(2) by (simp add: MyBlackjackEnv_step_def my_returns_def get_obs_dealt)
  then show ?thesis using d p by blast
qed

lemma BlackjackEnv_double:
  "BlackjackEnv_step s 2 =
     (let s1 = play_dealer (s\<lparr>player := player s @ [fst (draw_card (np_random s))],
                               np_random := snd (draw_card (np_random s))\<rparr>)
      in (Inr ((sum_hand (player s1), hd (dealer s1), usable_ace (player s1)),
               payout s1 * 2, True), s1))"
proof -
  let ?s0 = "s\<lparr>player := player s @ [fst (draw_card (np_random s))],
               np_random := snd (draw_card (np_random s))\<rparr>"
  have "dealer (play_dealer ?s0) \<noteq> []"
    using play_dealer_props [of ?s0] total_17_dealt by blast
  then show ?thesis
    by (simp add: BlackjackEnv_step_def returns_def get_obs_dealt Let_def case_prod_beta)
qed

lemma BlackjackEnv_hit:
  "BlackjackEnv_step s 1 =
     (let s1 = s\<lparr>player := player s @ [fst (draw_card (np_random s))],
                  np_random := snd (draw_card (np_random s))\<rparr>
      in ((case get_obs s1 of
             Inl e \<Rightarrow> Inl e
           | Inr ob \<Rightarrow> Inr (ob, if is_bust (player s1) then - 1 else 0, is_bust (player s1))),
          s1))"
  by (simp add: BlackjackEnv_step_def returns_def Let_def case_prod_beta split: sum.splits)

lemma MyBlackjackEnv_double:
  assumes "deck_cards (deck s) \<noteq> []"
  shows "\<exists>c s1 r1 s' g' rs.
       draw_exposed s g False = (Inr c, s1, stl g, r1)
     \<and> c = deck_cards (deck s) ! (shd g mod length (deck_cards (deck s)))
     \<and> dealer_draws (s1\<lparr>player := player s1 @ [c]\<rparr>) (stl g) False = (None, s', g', rs)
     \<and> MyBlackjackEnv_step (s1\<lparr>player := player s1 @ [c]\<rparr>) (stl g) 0 =
         (Inr ((sum_hand (player s'), hd (dealer s'), usable_ace (player s')),
               payout s', True, rs), s', g')
     \<and> MyBlackjackEnv_step s g 2 =
         (Inr ((sum_hand (player s'), hd (dealer s'), usable_ace (player s')),
               payout s' * 2, True, r1 \<or> rs), s', g')
     \<and> 17 \<le> sum_hand (dealer s')
     \<and> player s' = player s @ [c] \<and> natural s' = natural s
     \<and> deck_cards (deck s') \<noteq> []
     \<and> (exposure_ok s \<longrightarrow> exposure_ok s')
     \<and> (\<exists>ds. dealer s' = dealer s @ ds \<and> drawn_below_17 (dealer s) ds)"
proof -
  obtain c s1 r1 where
      a: "draw_exposed s g False = (Inr c, s1, stl g, r1)"
      and c: "c = deck_cards (deck s) ! (shd g mod length (deck_cards (deck s)))"
      and p1: "player s1 = player s" "dealer s1 = dealer s" "natural s1 = natural s"
      and ne1: "deck_cards (deck s1) \<noteq> []"
    using draw_exposed_ok [OF assms, of g False] by blast
  let ?s2 = "s1\<lparr>player := player s1 @ [c]\<rparr>"
  have ne2: "deck_cards (deck ?s2) \<noteq> []" using ne1 by simp
  obtain s' g' rs where
      d: "dealer_draws ?s2 (stl g) False = (None, s', g', rs)"
      and st: "MyBlackjackEnv_step ?s2 (stl g) 0 =
         (Inr ((sum_hand (player ?s2), hd (dealer s'), usable_ace (player ?s2)),
               payout s', True, rs), s', g')"
      and p: "17 \<le> sum_hand (dealer s')" "player s' = player ?s2" "natural s' = natural ?s2"
        "deck_cards (deck s') \<noteq> []" "exposure_ok ?s2 \<longrightarrow> exposure_ok s'"
        "\<exists>ds. dealer s' = dealer ?s2 @ ds \<and> drawn_below_17 (dealer ?s2) ds"
    using MyBlackjackEnv_stick [OF ne2, of "stl g"] by blast
  have e2: "exposure_ok s \<Longrightarrow> exposure_ok ?s2"
    using draw_exposed_exposure [OF _ a] by (simp add: exposure_ok_def)
  have dd: "dealer_draws ?s2 (stl g) r1 = (None, s', g', r1 \<or> rs)"
    using dealer_draws_flag [of ?s2 "stl g" r1] d by simp
  have dealt: "dealer s' \<noteq> []" using p(1) by (rule total_17_dealt)
  have "MyBlackjackEnv_step s g 2 =
         (Inr ((sum_hand (player s'), hd (dealer s'), usable_ace (player s')),
               payout s' * 2, True, r1 \<or> rs), s', g')"
    using a dd dealt by (simp add: MyBlackjackEnv_step_def my_returns_def get_obs_dealt)
  then show ?thesis using a c d st p p1 e2 by auto
qed

lemma MyBlackjackEnv_hit:
  assumes "deck_cards (deck s) \<noteq> []"
  shows "\<exists>c s1 r1.
       draw_exposed s g False = (Inr c, s1, stl g, r1)
     \<and> c = deck_cards (deck s) ! (shd g mod length (deck_cards (deck s)))
     \<and> MyBlackjackEnv_step s g 1 =
         ((case get_obs (s1\<lparr>player := player s1 @ [c]\<rparr>) of
             Inl e \<Rightarrow> Inl e
           | Inr ob \<Rightarrow> Inr (ob, if is_bust (player s @ [c]) then - 1 else 0,
                            is_bust (player s @ [c]), r1)),
          s1\<lparr>player := player s1 @ [c]\<rparr>, stl g)
     \<and> player s1 = player s \<and> dealer s1 = dealer s \<and> natural s1 = natural s
     \<and> deck_cards (deck s1) \<noteq> []
     \<and> (exposure_ok s \<longrightarrow> exposure_ok s1)"
proof -
  obtain c s1 r1 where
      a: "draw_exposed s g False = (Inr c, s1, stl g, r1)"
      and c: "c = deck_cards (deck s) ! (shd g mod length (deck_cards (deck s)))"
      and p1: "player s1 = player s" "dealer s1 = dealer s" "natural s1 = natural s"
      and ne1: "deck_cards (deck s1) \<noteq> []"
    using draw_exposed_ok [OF assms, of g False] by blast
  have e: "exposure_ok s \<Longrightarrow> exposure_ok s1"
    using draw_exposed_exposure [OF _ a] .
  have "MyBlackjackEnv_step s g 1 =
         ((case get_obs (s1\<lparr>player := player s1 @ [c]\<rparr>) of
             Inl e \<Rightarrow> Inl e
           | Inr ob \<Rightarrow> Inr (ob, if is_bust (player s @ [c]) then - 1 else 0,
                            is_bust (player s @ [c]), r1)),
          s1\<lparr>player := player s1 @ [c]\<rparr>, stl g)"
    using a p1 by (simp add: MyBlackjackEnv_step_def my_returns_def Let_def split: sum.splits)
  then show ?thesis using a c p1 ne1 e by auto
qed

lemma is_natural_total: "is_natural hand \<Longrightarrow> sum_hand hand = 21 \<and> \<not> is_bust hand"
proof -
  assume n: "is_natural hand"
  then have s: "sort hand = [1, 10]" by (simp add: is_natural_def)
  have "sum_list hand = sum_mset (mset (sort hand))"
    by (simp add: sum_mset_sum_list)
  then have sum: "sum_list hand = 11" using s by simp
  have "set hand = set (sort hand)" by simp
  then have "1 \<in> set hand" using s by simp
  then show ?thesis using sum by (simp add: sum_hand_def usable_ace_def is_bust_def)
qed

lemma payout_values: "payout s \<in> {- 1, 0, 1, 3 / 2}"
  using cmp_values [of "score (player s)" "score (dealer s)"]
  by (auto simp: payout_def Let_def)

lemma payout_no_natural: "\<not> is_natural (player s) \<Longrightarrow> payout s \<in> {- 1, 0, 1}"
  using cmp_values [of "score (player s)" "score (dealer s)"]
  by (auto simp: payout_def Let_def)

lemma payout_bust:
  assumes "is_bust (player s)" and "17 \<le> sum_hand (dealer s)"
  shows "payout s = cmp 0 (score (dealer s)) \<and> (payout s = 0 \<or> payout s = - 1)"
proof -
  have "\<not> is_natural (player s)" using assms(1) is_natural_total by blast
  moreover have "score (player s) = 0" using assms(1) by (simp add: score_def)
  moreover have "0 \<le> score (dealer s)" using assms(2) by (simp add: score_def)
  ultimately show ?thesis by (auto simp: payout_def cmp_def Let_def)
qed

lemma count_cards_ok:
  assumes "set cs \<subseteq> {1..10}" and "length index = 10"
  shows "\<exists>h. count_cards index cs = Inr h \<and> length h = 10
     \<and> (\<forall>v \<in> {1..10}. h ! nat (v - 1) = index ! nat (v - 1) + int (count_list cs v))"
  using assms
proof (induction cs arbitrary: index)
  case Nil
  then show ?case by simp
next
  case (Cons c cs)
  then have c: "1 \<le> c" "c \<le> 10" and cs: "set cs \<subseteq> {1..10}" by auto
  let ?index = "index[nat (c - 1) := index ! nat (c - 1) + 1]"
  have len: "length ?index = 10" using Cons.prems(2) by simp
  obtain h where h: "count_cards ?index cs = Inr h" "length h = 10"
      "\<forall>v \<in> {1..10}. h ! nat (v - 1) = ?index ! nat (v - 1) + int (count_list cs v)"
    using Cons.IH [OF cs len] by blast
  have step: "count_cards index (c # cs) = count_cards ?index cs"
    using c Cons.prems(2) by (simp add: Let_def)
  have "h ! nat (v - 1) = index ! nat (v - 1) + int (count_list (c # cs) v)"
    if v: "v \<in> {1..10}" for v
  proof -
    have "nat (c - 1) < length index" using c Cons.prems(2) by simp
    moreover have "(nat (v - 1) = nat (c - 1)) = (v = c)" using c v by auto
    ultimately have "?index ! nat (v - 1) = (if v = c then index ! nat (v - 1) + 1 else index ! nat (v - 1))"
      by (auto simp: nth_list_update)
    then show ?thesis using h(3) v by auto
  qed
  then show ?case using step h(1,2) by auto
qed

lemma exposure_ok_range:
  assumes "exposure_ok s"
  shows "set (cards s) \<subseteq> {1..10}"
proof
  fix c assume "c \<in> set (cards s)"
  then have "c \<in># mset (cards s) + mset (deck_cards (deck s))" by simp
  moreover have "mset (cards s) + mset (deck_cards (deck s)) = mset full_cards"
    using assms by (simp add: exposure_ok_def)
  ultimately have "c \<in># mset full_cards" by simp
  then have "c \<in> set full_cards" by simp
  then show "c \<in> {1..10}" using full_cards_range by auto
qed

lemma exposure_ok_histogram:
  assumes "exposure_ok s"
  shows "\<exists>h. cards_to_index s = Inr h \<and> length h = 10
     \<and> (\<forall>v \<in> {1..10}. h ! nat (v - 1) = int (count_list (cards s) v)
           \<and> h ! nat (v - 1) = int (count (mset full_cards) v)
                               - int (count (mset (deck_cards (deck s))) v))"
proof -
  obtain h where h: "count_cards (replicate 10 0) (cards s) = Inr h" "length h = 10"
      "\<forall>v \<in> {1..10}. h ! nat (v - 1)
          = replicate 10 0 ! nat (v - 1) + int (count_list (cards s) v)"
    using count_cards_ok [OF exposure_ok_range [OF assms], of "replicate 10 0"] by auto
  have a: "h ! nat (v - 1) = int (count_list (cards s) v)" if "v \<in> {1..10}" for v
    using h(3) that by auto
  have "count (mset full_cards) v
      = count (mset (cards s)) v + count (mset (deck_cards (deck s))) v" for v
    using assms by (metis count_union exposure_ok_def)
  then have b: "int (count_list (cards s) v)
      = int (count (mset full_cards) v) - int (count (mset (deck_cards (deck s))) v)" for v
    by (simp add: count_mset)
  show ?thesis using h(1,2) a b by (auto simp: cards_to_index_def)
qed

lemma cards_to_index_empty:
  "cards s = [] \<Longrightarrow> cards_to_index s = Inr [0, 0, 0, 0, 0, 0, 0, 0, 0, 0]"
  by (simp add: cards_to_index_def numeral_eq_Suc)

lemma exposure_ok_same:
  "deck s' = deck s \<Longrightarrow> cards s' = cards s \<Longrightarrow> exposure_ok s' = exposure_ok s"
  by (simp add: exposure_ok_def)

lemma deal_props:
  assumes "deck_cards (deck s) \<noteq> []"
  shows "\<exists>c s1 r1. deal to_dealer s g reseted = (None, s1, stl g, r1)
     \<and> deck_cards (deck s1) \<noteq> []
     \<and> (exposure_ok s \<longrightarrow> exposure_ok s1)
     \<and> dealer s1 = (if to_dealer then dealer s @ [c] else dealer s)
     \<and> player s1 = (if to_dealer then player s else player s @ [c])"
proof -
  obtain c s1 where
      a: "draw_exposed s g reseted
            = (Inr c, s1, stl g, reseted \<or> length (deck_cards (deck s)) = 1)"
      and p: "player s1 = player s" "dealer s1 = dealer s"
      and ne1: "deck_cards (deck s1) \<noteq> []"
    using draw_exposed_ok [OF assms, of g reseted] by blast
  have e: "exposure_ok s \<Longrightarrow> exposure_ok s1"
    using draw_exposed_exposure [OF _ a] .
  show ?thesis using a p ne1 e
    by (cases to_dealer) (auto simp: deal_def exposure_ok_def)
qed

lemma deals_props:
  assumes "deck_cards (deck s) \<noteq> []"
  shows "\<exists>s1 g1 r1. deals bs s g reseted = (None, s1, g1, r1)
     \<and> deck_cards (deck s1) \<noteq> []
     \<and> (exposure_ok s \<longrightarrow> exposure_ok s1)
     \<and> length (dealer s1) = length (dealer s) + length (filter (\<lambda>b. b) bs)
     \<and> length (player s1) = length (player s) + length (filter (\<lambda>b. \<not> b) bs)"
  using assms
proof (induction bs arbitrary: s g reseted)
  case Nil
  then show ?case by simp
next
  case (Cons b bs)
  obtain c s1 r1 where d: "deal b s g reseted = (None, s1, stl g, r1)"
      and ne1: "deck_cards (deck s1) \<noteq> []"
      and e: "exposure_ok s \<longrightarrow> exposure_ok s1"
      and h: "dealer s1 = (if b then dealer s @ [c] else dealer s)"
         "player s1 = (if b then player s else player s @ [c])"
    using deal_props [OF Cons.prems, of b g reseted] by blast
  obtain s2 g2 r2 where
      ds: "deals bs s1 (stl g) r1 = (None, s2, g2, r2)"
      and q: "deck_cards (deck s2) \<noteq> []" "exposure_ok s1 \<longrightarrow> exposure_ok s2"
        "length (dealer s2) = length (dealer s1) + length (filter (\<lambda>b. b) bs)"
        "length (player s2) = length (player s1) + length (filter (\<lambda>b. \<not> b) bs)"
    using Cons.IH [OF ne1, of "stl g" r1] by blast
  have "deals (b # bs) s g reseted = (None, s2, g2, r2)" using d ds by simp
  then show ?case using q e h by (cases b) auto
qed

lemma MyBlackjackEnv_reset_props:
  assumes "deck_cards (deck s) \<noteq> []"
  shows "\<exists>ob r s1 g1. MyBlackjackEnv_reset s g = (Inr (ob, 0, False, r), s1, g1)
     \<and> deck_cards (deck s1) \<noteq> []
     \<and> (exposure_ok s \<longrightarrow> exposure_ok s1)
     \<and> length (dealer s1) = 2 \<and> length (player s1) = 2"
proof -
  let ?s0 = "s\<lparr>player := [], dealer := []\<rparr>"
  have ne0: "deck_cards (deck ?s0) \<noteq> []" using assms by simp
  obtain s1 g1 r1 where
      ds: "deals [True, True, False, False] ?s0 g False = (None, s1, g1, r1)"
      and q: "deck_cards (deck s1) \<noteq> []" "exposure_ok ?s0 \<longrightarrow> exposure_ok s1"
        "length (dealer s1) = length (dealer ?s0)
           + length (filter (\<lambda>b. b) [True, True, False, False])"
        "length (player s1) = length (player ?s0)
           + length (filter (\<lambda>b. \<not> b) [True, True, False, False])"
    using deals_props [OF ne0, of "[True, True, False, False]" g False] by blast
  have l: "length (dealer s1) = 2" "length (player s1) = 2" using q(3,4) by simp_all
  then have "dealer s1 \<noteq> []" by auto
  then have "MyBlackjackEnv_reset s g =
      (Inr ((sum_hand (player s1), hd (dealer s1), usable_ace (player s1)), 0, False, r1),
       s1, g1)"
    using ds by (simp add: MyBlackjackEnv_reset_def my_returns_def get_obs_dealt)
  moreover have "exposure_ok s \<longrightarrow> exposure_ok s1"
    using q(2) by (simp add: exposure_ok_def)
  ultimately show ?thesis using q(1) l by blast
qed

lemma MyBlackjackEnv_step_exposure:
  assumes "exposure_ok s"
  shows "exposure_ok (fst (snd (MyBlackjackEnv_step s g action)))"
proof -
  have ne: "deck_cards (deck s) \<noteq> []" using assms by (simp add: exposure_ok_def)
  consider "action = 1" | "action = 0" | "action = 2"
    | "action \<noteq> 1" "action \<noteq> 0" "action \<noteq> 2" by blast
  then show ?thesis
  proof cases
    case 1
    obtain c s1 r1 where
        st: "MyBlackjackEnv_step s g 1 =
         ((case get_obs (s1\<lparr>player := player s1 @ [c]\<rparr>) of
             Inl e \<Rightarrow> Inl e
           | Inr ob \<Rightarrow> Inr (ob, if is_bust (player s @ [c]) then - 1 else 0,
                            is_bust (player s @ [c]), r1)),
          s1\<lparr>player := player s1 @ [c]\<rparr>, stl g)"
        and e: "exposure_ok s \<longrightarrow> exposure_ok s1"
      using MyBlackjackEnv_hit [OF ne, of g] by blast
    have "exposure_ok (s1\<lparr>player := player s1 @ [c]\<rparr>)"
      using e assms by (simp add: exposure_ok_def)
    then show ?thesis using 1 st by simp
  next
    case 2
    then show ?thesis using MyBlackjackEnv_stick [OF ne, of g] assms by auto
  next
    case 3
    then show ?thesis using MyBlackjackEnv_double [OF ne, of g] assms by auto
  next
    case 4
    then have "fst (snd (MyBlackjackEnv_step s g action)) = s"
      by (simp add: MyBlackjackEnv_step_def split: sum.splits)
    then show ?thesis using assms by simp
  qed
qed

lemma MyBlackjackEnv_init_exposure: "exposure_ok (MyBlackjackEnv_init n)"
  by (simp add: exposure_ok_def MyBlackjackEnv_init_def Deck_reset_def full_cards_eq)

lemma last_card_env_ok: "exposure_ok last_card_env"
proof -
  have "full_cards ! 4 = 5" by (simp add: full_cards_eq)
  then have "add_mset 5 (mset (del_item full_cards 4)) = mset full_cards"
    using mset_del_item [of 4 full_cards] by (simp add: length_full_cards)
  then show ?thesis by (simp add: exposure_ok_def last_card_env_def)
qed

text \<open>
  Both \<^verbatim>\<open>reset\<close> methods leave two cards in each hand, so every state from the first reset
  on has a dealt dealer hand and at least two cards in the player's hand.
\<close>

lemma BlackjackEnv_reset_props:
  "\<exists>ob s1. BlackjackEnv_reset s = (Inr ob, s1)
     \<and> length (dealer s1) = 2 \<and> length (player s1) = 2"
  by (simp add: BlackjackEnv_reset_def draw_hand_def get_obs_def Let_def case_prod_beta)

section \<open>The states of the reset and step cycle\<close>

lemma in_episode_dealt:
  "in_episode s \<Longrightarrow> dealer s \<noteq> [] \<and> 2 \<le> length (player s)"
proof (induction rule: in_episode.induct)
  case (after_reset s)
  obtain ob s1 where "BlackjackEnv_reset s = (Inr ob, s1)"
      "length (dealer s1) = 2" "length (player s1) = 2"
    using BlackjackEnv_reset_props [of s] by blast
  then show ?case by auto
next
  case (after_step s action)
  consider "\<not> (0 \<le> action \<and> action < 3)" | "action = 1" | "action = 0" | "action = 2"
    by linarith
  then show ?case
  proof cases
    case 1
    then show ?thesis using after_step.IH by (simp add: BlackjackEnv_step_def)
  next
    case 2
    then show ?thesis using after_step.IH by (simp add: BlackjackEnv_hit Let_def)
  next
    case 3
    then show ?thesis
      using after_step.IH play_dealer_props [of s] by (auto simp: BlackjackEnv_stick)
  next
    case 4
    let ?s1 = "s\<lparr>player := player s @ [fst (draw_card (np_random s))],
                 np_random := snd (draw_card (np_random s))\<rparr>"
    show ?thesis
      using 4 after_step.IH play_dealer_props [of ?s1]
      by (auto simp: BlackjackEnv_double Let_def)
  qed
qed

lemma my_in_episode_dealt:
  "my_in_episode s \<Longrightarrow>
   dealer s \<noteq> [] \<and> deck_cards (deck s) \<noteq> [] \<and> 2 \<le> length (player s) \<and> exposure_ok s"
proof (induction rule: my_in_episode.induct)
  case (first_reset n g)
  have e: "exposure_ok (MyBlackjackEnv_init n)" by (rule MyBlackjackEnv_init_exposure)
  then have ne: "deck_cards (deck (MyBlackjackEnv_init n)) \<noteq> []"
    by (simp add: exposure_ok_def)
  obtain ob r s1 g1 where
      "MyBlackjackEnv_reset (MyBlackjackEnv_init n) g = (Inr (ob, 0, False, r), s1, g1)"
      "deck_cards (deck s1) \<noteq> []" "exposure_ok (MyBlackjackEnv_init n) \<longrightarrow> exposure_ok s1"
      "length (dealer s1) = 2" "length (player s1) = 2"
    using MyBlackjackEnv_reset_props [OF ne, of g] by blast
  then show ?case using e by auto
next
  case (next_reset s g)
  then have ne: "deck_cards (deck s) \<noteq> []" and e: "exposure_ok s" by simp_all
  obtain ob r s1 g1 where
      "MyBlackjackEnv_reset s g = (Inr (ob, 0, False, r), s1, g1)"
      "deck_cards (deck s1) \<noteq> []" "exposure_ok s \<longrightarrow> exposure_ok s1"
      "length (dealer s1) = 2" "length (player s1) = 2"
    using MyBlackjackEnv_reset_props [OF ne, of g] by blast
  then show ?case using e by auto
next
  case (next_step s g action)
  then have d: "dealer s \<noteq> []" and ne: "deck_cards (deck s) \<noteq> []"
    and l: "2 \<le> length (player s)" and e: "exposure_ok s" by simp_all
  have e': "exposure_ok (fst (snd (MyBlackjackEnv_step s g action)))"
    using MyBlackjackEnv_step_exposure [OF e] .
  then have ne': "deck_cards (deck (fst (snd (MyBlackjackEnv_step s g action)))) \<noteq> []"
    by (simp add: exposure_ok_def)
  consider "action = 1" | "action = 0" | "action = 2"
    | "action \<noteq> 1" "action \<noteq> 0" "action \<noteq> 2" by blast
  then have "dealer (fst (snd (MyBlackjackEnv_step s g action))) \<noteq> []
      \<and> 2 \<le> length (player (fst (snd (MyBlackjackEnv_step s g action))))"
  proof cases
    case 1
    obtain c s1 r1 where
        "MyBlackjackEnv_step s g 1 =
         ((case get_obs (s1\<lparr>player := player s1 @ [c]\<rparr>) of
             Inl e \<Rightarrow> Inl e
           | Inr ob \<Rightarrow> Inr (ob, if is_bust (player s @ [c]) then - 1 else 0,
                            is_bust (player s @ [c]), r1)),
          s1\<lparr>player := player s1 @ [c]\<rparr>, stl g)"
        "player s1 = player s" "dealer s1 = dealer s"
      using MyBlackjackEnv_hit [OF ne, of g] by blast
    then show ?thesis using 1 d l by simp
  next
    case 2
    then show ?thesis using MyBlackjackEnv_stick [OF ne, of g] d l by auto
  next
    case 3
    then show ?thesis using MyBlackjackEnv_double [OF ne, of g] d l by auto
  next
    case 4
    then have "fst (snd (MyBlackjackEnv_step s g action)) = s"
      by (simp add: MyBlackjackEnv_step_def split: sum.splits)
    then show ?thesis using d l by simp
  qed
  then show ?case using e' ne' by simp
qed

lemma env_fresh_reset:
  "snd (BlackjackEnv_reset env_fresh) =
     \<lparr>natural = False, player = [10, 10], dealer = [10, 10], double = False,
      np_random = sconst 4\<rparr>"
  by (simp add: BlackjackEnv_reset_def draw_hand_def draw_card_def deck_values_def
      env_fresh_def Let_def)

lemma init_reset_tens:
  "fst (snd (MyBlackjackEnv_reset (MyBlackjackEnv_init False) tens_then_five)) =
     \<lparr>natural = False, player = [10, 10], dealer = [10, 10],
      deck = \<lparr>deck_cards = take 48 full_cards\<rparr>, cards = [10, 10, 10, 10]\<rparr>
   \<and> snd (snd (MyBlackjackEnv_reset (MyBlackjackEnv_init False) tens_then_five)) = sconst 4"
  by (simp add: MyBlackjackEnv_reset_def MyBlackjackEnv_init_def tens_then_five_def deal_def
      my_returns_def get_obs_def draw_exposed_def Deck_draw_def Deck_reset_def del_item_def
      Let_def full_cards_eq)

section \<open>The claims\<close>

text \<open>
  Claim C6. For every non-empty hand of card values in \<open>[1,10]\<close>, \<open>is_bust hand\<close> equals
  \<open>sum_hand hand > 21\<close>, and \<open>score hand\<close> is 0 whenever \<open>is_bust hand\<close> holds and
  \<open>sum_hand hand\<close> otherwise.
\<close>

theorem C6_bust_and_score:
  assumes "hand \<noteq> []" and "set hand \<subseteq> {1..10}"
  shows "is_bust hand = (sum_hand hand > 21)
       \<and> (is_bust hand \<longrightarrow> score hand = 0)
       \<and> (\<not> is_bust hand \<longrightarrow> score hand = sum_hand hand)"
  by (simp add: is_bust_def score_def)

theorem C6_bust_and_score_witness:
  "[10, 10, 5 :: int] \<noteq> [] \<and> set [10, 10, 5 :: int] \<subseteq> {1..10}
   \<and> is_bust [10, 10, 5] \<and> sum_hand [10, 10, 5] = 25 \<and> score [10, 10, 5] = 0"
  using C6_bust_and_score [of "[10, 10, 5]"]
  by (simp add: is_bust_def sum_hand_def usable_ace_def)

text \<open>
  Claim C7. For every hand, \<open>usable_ace hand\<close> holds if and only if the hand contains at
  least one Ace (value 1) and \<open>sum hand + 10 \<le> 21\<close>; and \<open>sum_hand hand\<close> is
  \<open>sum hand + 10\<close> when \<open>usable_ace hand\<close> holds and \<open>sum hand\<close> otherwise.
\<close>

theorem C7_usable_ace_and_total:
  "(usable_ace hand \<longleftrightarrow> (\<exists>c \<in> set hand. c = 1) \<and> sum_list hand + 10 \<le> 21)
   \<and> sum_hand hand = (if usable_ace hand then sum_list hand + 10 else sum_list hand)"
  by (simp add: usable_ace_def sum_hand_def)

theorem C7_usable_ace_and_total_witness:
  "usable_ace [1, 5] \<and> sum_hand [1, 5] = 16 \<and> \<not> usable_ace [1, 5, 10] \<and> sum_hand [1, 5, 10] = 16"
  using C7_usable_ace_and_total [of "[1, 5]"] C7_usable_ace_and_total [of "[1, 5, 10]"]
  by (simp add: usable_ace_def)

text \<open>
  Claim C5. \<^verbatim>\<open>Deck.reset()\<close> sets the shoe to four copies of each value 1 to 9 plus 16
  copies of 10, 52 cards in all. Starting from a full shoe, each of the first 51 calls of
  \<^verbatim>\<open>Deck.draw()\<close> returns \<open>reshuffled = False\<close>, the 52nd returns \<open>reshuffled = True\<close> and
  leaves the shoe repopulated to the full composition. The card list is non-empty after
  every draw, so a draw never fails on an emptied shoe.
\<close>

theorem C5_shoe:
  "length (deck_cards (Deck_reset d)) = 52
   \<and> (\<forall>v. count (mset (deck_cards (Deck_reset d))) v
          = (if 1 \<le> v \<and> v \<le> 9 then 4 else if v = 10 then 16 else 0))
   \<and> (\<exists>rs g1. draws 52 (Deck_reset d) g = (Inr rs, Deck_reset d, g1)
         \<and> map snd rs = replicate 51 False @ [True]
         \<and> mset (map fst rs) = mset full_cards)
   \<and> (deck_cards d \<noteq> [] \<longrightarrow>
        (\<exists>c r d1. Deck_draw d g = (Inr (c, r), d1, stl g) \<and> deck_cards d1 \<noteq> []
           \<and> r = (length (deck_cards d) = 1)))"
proof -
  have len: "length (deck_cards (Deck_reset d)) = Suc 51"
    by (simp add: Deck_reset_def length_full_cards)
  obtain rs g1 where "draws (Suc 51) (Deck_reset d) g = (Inr rs, Deck_reset (Deck_reset d), g1)"
      "map snd rs = replicate 51 False @ [True]"
      "mset (map fst rs) = mset (deck_cards (Deck_reset d))"
    using draws_exhaust [OF len, of g] by blast
  then have "\<exists>rs g1. draws 52 (Deck_reset d) g = (Inr rs, Deck_reset d, g1)
         \<and> map snd rs = replicate 51 False @ [True]
         \<and> mset (map fst rs) = mset full_cards"
    by (simp add: Deck_reset_def)
  moreover have "deck_cards d \<noteq> [] \<longrightarrow>
        (\<exists>c r d1. Deck_draw d g = (Inr (c, r), d1, stl g) \<and> deck_cards d1 \<noteq> []
           \<and> r = (length (deck_cards d) = 1))"
    using Deck_draw_keeps_nonempty [of d g] by (auto simp: Deck_draw_nonempty)
  moreover have "\<forall>v. count (mset (deck_cards (Deck_reset d))) v
          = (if 1 \<le> v \<and> v \<le> 9 then 4 else if v = 10 then 16 else 0)"
    using count_full_cards by (simp add: Deck_reset_def)
  ultimately show ?thesis using len by simp
qed

theorem C5_shoe_witness:
  "deck_cards \<lparr>deck_cards = [7, 3]\<rparr> \<noteq> []
   \<and> Deck_draw \<lparr>deck_cards = [7, 3]\<rparr> (sconst 1) = (Inr (3, False), \<lparr>deck_cards = [7]\<rparr>, sconst 1)
   \<and> Deck_draw \<lparr>deck_cards = [7]\<rparr> (sconst 1) = (Inr (7, True), \<lparr>deck_cards = full_cards\<rparr>, sconst 1)
   \<and> length (deck_cards (Deck_reset \<lparr>deck_cards = [7]\<rparr>)) = 52"
  using C5_shoe [of "\<lparr>deck_cards = [7, 3]\<rparr>" "sconst 1"] C5_shoe [of "\<lparr>deck_cards = [7]\<rparr>" "sconst 1"]
  by (simp add: Deck_draw_def Deck_reset_def del_item_def Let_def)

text \<open>
  Claim C4. In every stick or double resolution, in both simulators, the dealer draws
  another card if and only if the dealer's current total \<open>sum_hand\<close> is below 17: the loop
  never stops while the total is below 17 and never draws once it is at least 17, so when
  the step call returns the dealer's total is at least 17.
\<close>

theorem C4_dealer_rule:
  assumes "action = 0 \<or> action = 2"
  shows "(\<exists>res s' ds. BlackjackEnv_step s action = (Inr res, s')
            \<and> dealer s' = dealer s @ ds \<and> drawn_below_17 (dealer s) ds
            \<and> 17 \<le> sum_hand (dealer s')
            \<and> (ds = []) = (17 \<le> sum_hand (dealer s)))
       \<and> (deck_cards (deck m) \<noteq> [] \<longrightarrow>
           (\<exists>res m' g' ds. MyBlackjackEnv_step m g action = (Inr res, m', g')
            \<and> dealer m' = dealer m @ ds \<and> drawn_below_17 (dealer m) ds
            \<and> 17 \<le> sum_hand (dealer m')
            \<and> (ds = []) = (17 \<le> sum_hand (dealer m))))"
proof (intro conjI impI)
  let ?s0 = "s\<lparr>player := player s @ [fst (draw_card (np_random s))],
               np_random := snd (draw_card (np_random s))\<rparr>"
  show "\<exists>res s' ds. BlackjackEnv_step s action = (Inr res, s')
            \<and> dealer s' = dealer s @ ds \<and> drawn_below_17 (dealer s) ds
            \<and> 17 \<le> sum_hand (dealer s')
            \<and> (ds = []) = (17 \<le> sum_hand (dealer s))"
  proof (cases "action = 0")
    case True
    obtain ds where ds: "dealer (play_dealer s) = dealer s @ ds" "drawn_below_17 (dealer s) ds"
      and t: "17 \<le> sum_hand (dealer (play_dealer s))"
      using play_dealer_props [of s] by blast
    have "(ds = []) = (17 \<le> sum_hand (dealer s))"
      using drawn_below_17_none [OF ds(2)] t ds(1) by simp
    then show ?thesis using True ds t BlackjackEnv_stick [of s] by blast
  next
    case False
    then have a2: "action = 2" using assms by simp
    obtain ds where ds: "dealer (play_dealer ?s0) = dealer ?s0 @ ds"
        "drawn_below_17 (dealer ?s0) ds"
      and t: "17 \<le> sum_hand (dealer (play_dealer ?s0))"
      using play_dealer_props [of ?s0] by blast
    have "(ds = []) = (17 \<le> sum_hand (dealer s))"
      using drawn_below_17_none [OF ds(2)] t ds(1) by simp
    moreover have "dealer ?s0 = dealer s" by simp
    moreover have "\<exists>res. BlackjackEnv_step s 2 = (Inr res, play_dealer ?s0)"
      by (auto simp: BlackjackEnv_double Let_def)
    ultimately show ?thesis using a2 ds t by metis
  qed
next
  assume ne: "deck_cards (deck m) \<noteq> []"
  show "\<exists>res m' g' ds. MyBlackjackEnv_step m g action = (Inr res, m', g')
            \<and> dealer m' = dealer m @ ds \<and> drawn_below_17 (dealer m) ds
            \<and> 17 \<le> sum_hand (dealer m')
            \<and> (ds = []) = (17 \<le> sum_hand (dealer m))"
  proof (cases "action = 0")
    case True
    obtain res m' g' ds where r: "MyBlackjackEnv_step m g 0 = (Inr res, m', g')"
      and t: "17 \<le> sum_hand (dealer m')"
      and ds: "dealer m' = dealer m @ ds" "drawn_below_17 (dealer m) ds"
      using MyBlackjackEnv_stick [OF ne, of g] by blast
    have "(ds = []) = (17 \<le> sum_hand (dealer m))"
      using drawn_below_17_none [OF ds(2)] t ds(1) by simp
    then show ?thesis using True r t ds by blast
  next
    case False
    then have a2: "action = 2" using assms by simp
    obtain res m' g' ds where r: "MyBlackjackEnv_step m g 2 = (Inr res, m', g')"
      and t: "17 \<le> sum_hand (dealer m')"
      and ds: "dealer m' = dealer m @ ds" "drawn_below_17 (dealer m) ds"
      using MyBlackjackEnv_double [OF ne, of g] by blast
    have "(ds = []) = (17 \<le> sum_hand (dealer m))"
      using drawn_below_17_none [OF ds(2)] t ds(1) by simp
    then show ?thesis using a2 r t ds by blast
  qed
qed


theorem C4_dealer_rule_witness:
  "((0::int) = 0 \<or> (0::int) = 2) \<and> deck_cards (deck my_env_16) \<noteq> []
   \<and> dealer (snd (BlackjackEnv_step env_16 0)) = [10, 6, 1]
   \<and> sum_hand [10, 6, 1] = 17
   \<and> dealer (fst (snd (MyBlackjackEnv_step my_env_16 (sconst 0) 0))) = [10, 6, 1]"
  using C4_dealer_rule [of 0 env_16 my_env_16 "sconst 0"]
  by (simp add: env_16_def my_env_16_def eval_defs play_dealer.simps dealer_draws.simps)

text \<open>
  Claim C3. For every simulator state, step with action 0 (stick) appends no card to the
  player's hand, draws cards for the dealer until the dealer's total is at least 17, and
  returns \<open>done = True\<close> with the reward \<open>sign (score player - score dealer)\<close>, one of
  \<open>-1, 0, 1\<close>, except that when the \<^verbatim>\<open>natural\<close> flag is set, the player's hand is a
  natural and the reward would be 1, the returned reward is 1.5.
\<close>

theorem C3_stick:
  "(\<exists>ob reward s' ds. BlackjackEnv_step s 0 = (Inr (ob, reward, True), s')
       \<and> player s' = player s
       \<and> dealer s' = dealer s @ ds \<and> drawn_below_17 (dealer s) ds
       \<and> 17 \<le> sum_hand (dealer s')
       \<and> reward =
           (if natural s \<and> is_natural (player s)
               \<and> sgn (score (player s) - score (dealer s')) = 1
            then 3 / 2 else of_int (sgn (score (player s) - score (dealer s'))))
       \<and> sgn (score (player s) - score (dealer s')) \<in> {- 1, 0, 1})
   \<and> (deck_cards (deck m) \<noteq> [] \<longrightarrow>
       (\<exists>ob reward reseted m' g' ds.
          MyBlackjackEnv_step m g 0 = (Inr (ob, reward, True, reseted), m', g')
       \<and> player m' = player m
       \<and> dealer m' = dealer m @ ds \<and> drawn_below_17 (dealer m) ds
       \<and> 17 \<le> sum_hand (dealer m')
       \<and> reward =
           (if natural m \<and> is_natural (player m)
               \<and> sgn (score (player m) - score (dealer m')) = 1
            then 3 / 2 else of_int (sgn (score (player m) - score (dealer m'))))
       \<and> sgn (score (player m) - score (dealer m')) \<in> {- 1, 0, 1}))"
proof (intro conjI impI)
  have sg: "sgn x \<in> {- 1, 0, 1}" for x :: int by (auto simp: sgn_if)
  let ?s' = "play_dealer s"
  obtain ds where ds: "dealer ?s' = dealer s @ ds" "drawn_below_17 (dealer s) ds"
    and p: "17 \<le> sum_hand (dealer ?s')" "player ?s' = player s" "natural ?s' = natural s"
    using play_dealer_props [of s] by blast
  have "payout ?s' =
      (if natural s \<and> is_natural (player s)
               \<and> sgn (score (player s) - score (dealer ?s')) = 1
       then 3 / 2 else of_int (sgn (score (player s) - score (dealer ?s'))))"
    using payout_sign [of ?s'] p by simp
  then show "\<exists>ob reward s' ds. BlackjackEnv_step s 0 = (Inr (ob, reward, True), s')
       \<and> player s' = player s
       \<and> dealer s' = dealer s @ ds \<and> drawn_below_17 (dealer s) ds
       \<and> 17 \<le> sum_hand (dealer s')
       \<and> reward =
           (if natural s \<and> is_natural (player s)
               \<and> sgn (score (player s) - score (dealer s')) = 1
            then 3 / 2 else of_int (sgn (score (player s) - score (dealer s'))))
       \<and> sgn (score (player s) - score (dealer s')) \<in> {- 1, 0, 1}"
    using BlackjackEnv_stick [of s] ds p sg by blast
next
  assume ne: "deck_cards (deck m) \<noteq> []"
  have sg: "sgn x \<in> {- 1, 0, 1}" for x :: int by (auto simp: sgn_if)
  obtain m' g' r' ds where
      st: "MyBlackjackEnv_step m g 0 =
         (Inr ((sum_hand (player m), hd (dealer m'), usable_ace (player m)),
               payout m', True, r'), m', g')"
      and p: "17 \<le> sum_hand (dealer m')" "player m' = player m" "natural m' = natural m"
      and ds: "dealer m' = dealer m @ ds" "drawn_below_17 (dealer m) ds"
    using MyBlackjackEnv_stick [OF ne, of g] by blast
  have "payout m' =
      (if natural m \<and> is_natural (player m)
               \<and> sgn (score (player m) - score (dealer m')) = 1
       then 3 / 2 else of_int (sgn (score (player m) - score (dealer m'))))"
    using payout_sign [of m'] p by simp
  then show "\<exists>ob reward reseted m' g' ds.
          MyBlackjackEnv_step m g 0 = (Inr (ob, reward, True, reseted), m', g')
       \<and> player m' = player m
       \<and> dealer m' = dealer m @ ds \<and> drawn_below_17 (dealer m) ds
       \<and> 17 \<le> sum_hand (dealer m')
       \<and> reward =
           (if natural m \<and> is_natural (player m)
               \<and> sgn (score (player m) - score (dealer m')) = 1
            then 3 / 2 else of_int (sgn (score (player m) - score (dealer m'))))
       \<and> sgn (score (player m) - score (dealer m')) \<in> {- 1, 0, 1}"
    using st ds p sg by blast
qed

theorem C3_stick_witness:
  "deck_cards (deck my_env_natural) \<noteq> []
   \<and> BlackjackEnv_step env_natural 0 = (Inr ((21, 10, True), 3 / 2, True), env_natural)
   \<and> fst (BlackjackEnv_step (env_natural\<lparr>natural := False\<rparr>) 0) = Inr ((21, 10, True), 1, True)
   \<and> fst (MyBlackjackEnv_step my_env_natural (sconst 0) 0)
        = Inr ((21, 10, True), 3 / 2, True, False)
   \<and> dealer (fst (snd (MyBlackjackEnv_step my_env_natural (sconst 0) 0))) = [10, 6, 4]"
  using C3_stick [of env_natural my_env_natural "sconst 0"]
  by (simp add: env_natural_def my_env_natural_def eval_defs play_dealer.simps
      dealer_draws.simps)

text \<open>
  Claim C2. For every simulator state with a non-empty player hand, step with action 2
  (double) appends exactly one drawn card to the player's hand, then performs the same
  dealer resolution and reward computation as stick, returns that reward multiplied by 2,
  and sets \<open>done = True\<close>. No bust check is made before the dealer plays: a busted player
  hand enters the comparison with score 0, so doubling into a bust still goes through the
  dealer's resolution and never returns an early -1.
\<close>

theorem C2_double:
  assumes "player s \<noteq> []" and "player m \<noteq> []"
  shows "(\<exists>c g1 ob r s'. draw_card (np_random s) = (c, g1)
       \<and> BlackjackEnv_step (s\<lparr>player := player s @ [c], np_random := g1\<rparr>) 0
            = (Inr (ob, r, True), s')
       \<and> BlackjackEnv_step s 2 = (Inr (ob, r * 2, True), s')
       \<and> player s' = player s @ [c]
       \<and> 17 \<le> sum_hand (dealer s')
       \<and> (is_bust (player s @ [c]) \<longrightarrow>
            r = cmp 0 (score (dealer s')) \<and> (r * 2 = 0 \<or> r * 2 = - 2))
       \<and> r * 2 \<noteq> - 1)
   \<and> (deck_cards (deck m) \<noteq> [] \<longrightarrow>
       (\<exists>c m1 r1 ob r rs m' g'. draw_exposed m g False = (Inr c, m1, stl g, r1)
       \<and> MyBlackjackEnv_step (m1\<lparr>player := player m1 @ [c]\<rparr>) (stl g) 0
            = (Inr (ob, r, True, rs), m', g')
       \<and> MyBlackjackEnv_step m g 2 = (Inr (ob, r * 2, True, r1 \<or> rs), m', g')
       \<and> player m' = player m @ [c]
       \<and> 17 \<le> sum_hand (dealer m')
       \<and> (is_bust (player m @ [c]) \<longrightarrow>
            r = cmp 0 (score (dealer m')) \<and> (r * 2 = 0 \<or> r * 2 = - 2))
       \<and> r * 2 \<noteq> - 1))"
proof (intro conjI impI)
  let ?c = "fst (draw_card (np_random s))"
  let ?g1 = "snd (draw_card (np_random s))"
  let ?s1 = "s\<lparr>player := player s @ [?c], np_random := ?g1\<rparr>"
  let ?s' = "play_dealer ?s1"
  let ?ob = "(sum_hand (player ?s'), hd (dealer ?s'), usable_ace (player ?s'))"
  have p: "17 \<le> sum_hand (dealer ?s')" "player ?s' = player s @ [?c]"
    using play_dealer_props [of ?s1] by simp_all
  have stick: "BlackjackEnv_step ?s1 0 = (Inr (?ob, payout ?s', True), ?s')"
    using BlackjackEnv_stick [of ?s1] p(2) by simp
  have dbl: "BlackjackEnv_step s 2 = (Inr (?ob, payout ?s' * 2, True), ?s')"
    by (simp add: BlackjackEnv_double Let_def)
  have bust: "is_bust (player s @ [?c]) \<longrightarrow>
      payout ?s' = cmp 0 (score (dealer ?s')) \<and> (payout ?s' * 2 = 0 \<or> payout ?s' * 2 = - 2)"
    using payout_bust [of ?s'] p by auto
  have no: "payout ?s' * 2 \<noteq> - 1" using payout_values [of ?s'] by auto
  have "draw_card (np_random s) = (?c, ?g1)" by simp
  then show "\<exists>c g1 ob r s'. draw_card (np_random s) = (c, g1)
       \<and> BlackjackEnv_step (s\<lparr>player := player s @ [c], np_random := g1\<rparr>) 0
            = (Inr (ob, r, True), s')
       \<and> BlackjackEnv_step s 2 = (Inr (ob, r * 2, True), s')
       \<and> player s' = player s @ [c]
       \<and> 17 \<le> sum_hand (dealer s')
       \<and> (is_bust (player s @ [c]) \<longrightarrow>
            r = cmp 0 (score (dealer s')) \<and> (r * 2 = 0 \<or> r * 2 = - 2))
       \<and> r * 2 \<noteq> - 1"
    using stick dbl p bust no by blast
next
  assume ne: "deck_cards (deck m) \<noteq> []"
  obtain c m1 r1 m' g' rs where
      a: "draw_exposed m g False = (Inr c, m1, stl g, r1)"
      and st: "MyBlackjackEnv_step (m1\<lparr>player := player m1 @ [c]\<rparr>) (stl g) 0 =
         (Inr ((sum_hand (player m'), hd (dealer m'), usable_ace (player m')),
               payout m', True, rs), m', g')"
      and dbl: "MyBlackjackEnv_step m g 2 =
         (Inr ((sum_hand (player m'), hd (dealer m'), usable_ace (player m')),
               payout m' * 2, True, r1 \<or> rs), m', g')"
      and p: "17 \<le> sum_hand (dealer m')" "player m' = player m @ [c]"
    using MyBlackjackEnv_double [OF ne, of g] by blast
  have bust: "is_bust (player m @ [c]) \<longrightarrow>
      payout m' = cmp 0 (score (dealer m')) \<and> (payout m' * 2 = 0 \<or> payout m' * 2 = - 2)"
    using payout_bust [of m'] p by auto
  have no: "payout m' * 2 \<noteq> - 1" using payout_values [of m'] by auto
  show "\<exists>c m1 r1 ob r rs m' g'. draw_exposed m g False = (Inr c, m1, stl g, r1)
       \<and> MyBlackjackEnv_step (m1\<lparr>player := player m1 @ [c]\<rparr>) (stl g) 0
            = (Inr (ob, r, True, rs), m', g')
       \<and> MyBlackjackEnv_step m g 2 = (Inr (ob, r * 2, True, r1 \<or> rs), m', g')
       \<and> player m' = player m @ [c]
       \<and> 17 \<le> sum_hand (dealer m')
       \<and> (is_bust (player m @ [c]) \<longrightarrow>
            r = cmp 0 (score (dealer m')) \<and> (r * 2 = 0 \<or> r * 2 = - 2))
       \<and> r * 2 \<noteq> - 1"
    using a st dbl p bust no by blast
qed

theorem C2_double_witness:
  "player env_double_bust \<noteq> [] \<and> player my_env_double \<noteq> []
   \<and> deck_cards (deck my_env_double) \<noteq> []
   \<and> is_bust ([10, 6] @ [10])
   \<and> fst (BlackjackEnv_step env_double_bust 2) = Inr ((26, 10, False), - 2, True)
   \<and> player (snd (BlackjackEnv_step env_double_bust 2)) = [10, 6, 10]
   \<and> fst (MyBlackjackEnv_step my_env_double (sconst 0) 2)
        = Inr ((21, 10, False), 2, True, False)
   \<and> player (fst (snd (MyBlackjackEnv_step my_env_double (sconst 0) 2))) = [5, 6, 10]"
  using C2_double [of env_double_bust my_env_double "sconst 0"]
  by (simp add: env_double_bust_def my_env_double_def eval_defs play_dealer.simps
      dealer_draws.simps)

text \<open>
  Claim C10. In both simulators, for any state reached after reset (the player's hand has
  at least two cards), step with action 2 (double) always returns a reward in
  \<open>{-2, 0, 2}\<close>: after the appended card the player's hand has at least three cards, so
  \<open>is_natural\<close> fails, the 1.5 upgrade is unreachable and the reward is never 3.
\<close>

theorem C10_double_rewards:
  assumes "2 \<le> length (player s)" and "2 \<le> length (player m)"
    and "deck_cards (deck m) \<noteq> []"
  shows "(\<exists>ob reward s'. BlackjackEnv_step s 2 = (Inr (ob, reward, True), s')
           \<and> 3 \<le> length (player s') \<and> \<not> is_natural (player s')
           \<and> reward \<in> {- 2, 0, 2} \<and> reward \<noteq> 3)
       \<and> (\<exists>ob reward reseted m' g'.
             MyBlackjackEnv_step m g 2 = (Inr (ob, reward, True, reseted), m', g')
           \<and> 3 \<le> length (player m') \<and> \<not> is_natural (player m')
           \<and> reward \<in> {- 2, 0, 2} \<and> reward \<noteq> 3)"
proof (intro conjI)
  let ?s1 = "s\<lparr>player := player s @ [fst (draw_card (np_random s))],
               np_random := snd (draw_card (np_random s))\<rparr>"
  let ?s' = "play_dealer ?s1"
  have p: "player ?s' = player s @ [fst (draw_card (np_random s))]"
    using play_dealer_props [of ?s1] by simp
  then have len: "3 \<le> length (player ?s')" using assms(1) by simp
  then have nn: "\<not> is_natural (player ?s')" using is_natural_length [of "player ?s'"] by auto
  have "payout ?s' * 2 \<in> {- 2, 0, 2}" using payout_no_natural [OF nn] by auto
  moreover have "BlackjackEnv_step s 2 =
      (Inr ((sum_hand (player ?s'), hd (dealer ?s'), usable_ace (player ?s')),
            payout ?s' * 2, True), ?s')"
    by (simp add: BlackjackEnv_double Let_def)
  ultimately show "\<exists>ob reward s'. BlackjackEnv_step s 2 = (Inr (ob, reward, True), s')
           \<and> 3 \<le> length (player s') \<and> \<not> is_natural (player s')
           \<and> reward \<in> {- 2, 0, 2} \<and> reward \<noteq> 3"
    using len nn by auto
next
  obtain c r1 m' g' rs where
      dbl: "MyBlackjackEnv_step m g 2 =
         (Inr ((sum_hand (player m'), hd (dealer m'), usable_ace (player m')),
               payout m' * 2, True, r1 \<or> rs), m', g')"
      and p: "player m' = player m @ [c]"
    using MyBlackjackEnv_double [OF assms(3), of g] by blast
  have len: "3 \<le> length (player m')" using p assms(2) by simp
  then have nn: "\<not> is_natural (player m')" using is_natural_length [of "player m'"] by auto
  have "payout m' * 2 \<in> {- 2, 0, 2}" using payout_no_natural [OF nn] by auto
  then show "\<exists>ob reward reseted m' g'.
             MyBlackjackEnv_step m g 2 = (Inr (ob, reward, True, reseted), m', g')
           \<and> 3 \<le> length (player m') \<and> \<not> is_natural (player m')
           \<and> reward \<in> {- 2, 0, 2} \<and> reward \<noteq> 3"
    using dbl len nn by auto
qed

theorem C10_double_rewards_witness:
  "2 \<le> length (player env_double_bust) \<and> 2 \<le> length (player my_env_double)
   \<and> deck_cards (deck my_env_double) \<noteq> []
   \<and> fst (BlackjackEnv_step env_double_bust 2) = Inr ((26, 10, False), - 2, True)
   \<and> fst (MyBlackjackEnv_step my_env_double (sconst 0) 2)
        = Inr ((21, 10, False), 2, True, False)"
  using C10_double_rewards [of env_double_bust my_env_double "sconst 0"]
  by (simp add: env_double_bust_def my_env_double_def eval_defs play_dealer.simps
      dealer_draws.simps)

text \<open>
  Claim C9. In both simulators, calling step with an action outside \<open>{0, 1, 2}\<close> fails
  loudly: the call raises instead of returning a normal result, and the player's and the
  dealer's hands are left unchanged.
\<close>

theorem C9_invalid_action:
  assumes "action < 0 \<or> 2 < action"
  shows "BlackjackEnv_step s action = (Inl AssertionError, s)
       \<and> (\<exists>e. MyBlackjackEnv_step m g action = (Inl e, m, g)
              \<and> e = (if dealer m = [] then IndexError else UnboundLocalError))
       \<and> player (snd (BlackjackEnv_step s action)) = player s
       \<and> dealer (snd (BlackjackEnv_step s action)) = dealer s
       \<and> player (fst (snd (MyBlackjackEnv_step m g action))) = player m
       \<and> dealer (fst (snd (MyBlackjackEnv_step m g action))) = dealer m"
proof -
  have b: "BlackjackEnv_step s action = (Inl AssertionError, s)"
    using assms by (auto simp: BlackjackEnv_step_def)
  have a: "action \<noteq> 1" "action \<noteq> 0" "action \<noteq> 2" using assms by auto
  have "MyBlackjackEnv_step m g action =
      (Inl (if dealer m = [] then IndexError else UnboundLocalError), m, g)"
    using a by (cases "dealer m") (simp_all add: MyBlackjackEnv_step_def get_obs_def)
  then show ?thesis using b by simp
qed

theorem C9_invalid_action_witness:
  "((3::int) < 0 \<or> (2::int) < 3)
   \<and> BlackjackEnv_step env_16 3 = (Inl AssertionError, env_16)
   \<and> MyBlackjackEnv_step my_env_16 (sconst 0) 3 = (Inl UnboundLocalError, my_env_16, sconst 0)"
  using C9_invalid_action [of 3 env_16 my_env_16 "sconst 0"]
  by (simp add: my_env_16_def)

text \<open>
  Claim C8. For every simulator state, step with action 1 (hit) appends exactly one drawn
  card to the player's hand and leaves the dealer's hand unchanged (the dealer draws no
  card); if the resulting player hand is bust the call returns reward -1 and
  \<open>done = True\<close>, otherwise it returns reward 0 and \<open>done = False\<close>. The simulator states
  are the states of the reset, step cycle.
\<close>

theorem C8_hit:
  assumes "in_episode s" and "my_in_episode m"
  shows "(\<exists>c g1 s'. draw_card (np_random s) = (c, g1)
       \<and> BlackjackEnv_step s 1 =
            (Inr ((sum_hand (player s'), hd (dealer s), usable_ace (player s')),
                  (if is_bust (player s') then - 1 else 0), is_bust (player s')), s')
       \<and> player s' = player s @ [c] \<and> dealer s' = dealer s)
   \<and> (\<exists>c m1 r1 m'. draw_exposed m g False = (Inr c, m1, stl g, r1)
       \<and> MyBlackjackEnv_step m g 1 =
            (Inr ((sum_hand (player m'), hd (dealer m), usable_ace (player m')),
                  (if is_bust (player m') then - 1 else 0), is_bust (player m'), r1),
             m', stl g)
       \<and> player m' = player m @ [c] \<and> dealer m' = dealer m)"
proof (intro conjI)
  have dealt: "dealer s \<noteq> []" using in_episode_dealt [OF assms(1)] by simp
  let ?c = "fst (draw_card (np_random s))"
  let ?g1 = "snd (draw_card (np_random s))"
  let ?s1 = "s\<lparr>player := player s @ [?c], np_random := ?g1\<rparr>"
  have "BlackjackEnv_step s 1 =
      (Inr ((sum_hand (player ?s1), hd (dealer s), usable_ace (player ?s1)),
            (if is_bust (player ?s1) then - 1 else 0), is_bust (player ?s1)), ?s1)"
    using BlackjackEnv_hit [of s] dealt by (simp add: Let_def get_obs_dealt)
  moreover have "draw_card (np_random s) = (?c, ?g1)"
      "player ?s1 = player s @ [?c]" "dealer ?s1 = dealer s"
    by simp_all
  ultimately show "\<exists>c g1 s'. draw_card (np_random s) = (c, g1)
       \<and> BlackjackEnv_step s 1 =
            (Inr ((sum_hand (player s'), hd (dealer s), usable_ace (player s')),
                  (if is_bust (player s') then - 1 else 0), is_bust (player s')), s')
       \<and> player s' = player s @ [c] \<and> dealer s' = dealer s"
    by blast
next
  have dealt: "dealer m \<noteq> []" and ne: "deck_cards (deck m) \<noteq> []"
    using my_in_episode_dealt [OF assms(2)] by simp_all
  obtain c m1 r1 where
      a: "draw_exposed m g False = (Inr c, m1, stl g, r1)"
      and st: "MyBlackjackEnv_step m g 1 =
         ((case get_obs (m1\<lparr>player := player m1 @ [c]\<rparr>) of
             Inl e \<Rightarrow> Inl e
           | Inr ob \<Rightarrow> Inr (ob, if is_bust (player m @ [c]) then - 1 else 0,
                            is_bust (player m @ [c]), r1)),
          m1\<lparr>player := player m1 @ [c]\<rparr>, stl g)"
      and p: "player m1 = player m" "dealer m1 = dealer m"
    using MyBlackjackEnv_hit [OF ne, of g] by blast
  let ?m' = "m1\<lparr>player := player m1 @ [c]\<rparr>"
  have "MyBlackjackEnv_step m g 1 =
            (Inr ((sum_hand (player ?m'), hd (dealer m), usable_ace (player ?m')),
                  (if is_bust (player ?m') then - 1 else 0), is_bust (player ?m'), r1),
             ?m', stl g)"
    using st p dealt by (simp add: get_obs_dealt)
  moreover have "player ?m' = player m @ [c]" "dealer ?m' = dealer m"
    using p by simp_all
  ultimately show "\<exists>c m1 r1 m'. draw_exposed m g False = (Inr c, m1, stl g, r1)
       \<and> MyBlackjackEnv_step m g 1 =
            (Inr ((sum_hand (player m'), hd (dealer m), usable_ace (player m')),
                  (if is_bust (player m') then - 1 else 0), is_bust (player m'), r1),
             m', stl g)
       \<and> player m' = player m @ [c] \<and> dealer m' = dealer m"
    using a by blast
qed

theorem C8_hit_witness:
  "in_episode (snd (BlackjackEnv_reset env_fresh))
   \<and> my_in_episode (fst (snd (MyBlackjackEnv_reset (MyBlackjackEnv_init False) tens_then_five)))
   \<and> BlackjackEnv_step (snd (BlackjackEnv_reset env_fresh)) 1 =
        (Inr ((25, 10, False), - 1, True),
         \<lparr>natural = False, player = [10, 10, 5], dealer = [10, 10], double = False,
          np_random = sconst 4\<rparr>)
   \<and> fst (MyBlackjackEnv_step
            (fst (snd (MyBlackjackEnv_reset (MyBlackjackEnv_init False) tens_then_five)))
            (sconst 4) 1)
        = Inr ((25, 10, False), - 1, True, False)"
proof -
  have h1: "in_episode (snd (BlackjackEnv_reset env_fresh))" by (rule in_episode.after_reset)
  have h2: "my_in_episode
      (fst (snd (MyBlackjackEnv_reset (MyBlackjackEnv_init False) tens_then_five)))"
    by (rule my_in_episode.first_reset)
  show ?thesis
    using C8_hit [OF h1 h2, of "sconst 4"] h1 h2
    by (simp add: env_fresh_reset init_reset_tens eval_defs full_cards_eq)
qed

text \<open>
  Claim C1, as amended. In the finite-deck simulator every draw of \<^verbatim>\<open>reset\<close> and \<^verbatim>\<open>step\<close>
  goes through the same block: the card is appended to the exposure record and, when the
  draw reports a reshuffle, the record is then cleared, so that the card that triggered
  the reshuffle is discarded with the rest. Immediately after a reshuffle-triggering draw
  the histogram \<^verbatim>\<open>cards_to_index\<close> is all zero; after any other draw the record is
  the old record followed by the drawn card. In every state reached from the constructor
  by \<^verbatim>\<open>reset\<close> and \<^verbatim>\<open>step\<close> the record holds exactly the cards missing from the shoe, and
  the histogram counts, at index \<open>v - 1\<close>, the occurrences of value \<open>v\<close> drawn after the
  most recent reshuffle-triggering draw.
\<close>

theorem C1_exposure:
  assumes "exposure_ok m"
  shows "(\<exists>c m1. draw_exposed m g reseted
              = (Inr c, m1, stl g, reseted \<or> length (deck_cards (deck m)) = 1)
            \<and> cards m1 = (if length (deck_cards (deck m)) = 1 then [] else cards m @ [c])
            \<and> (length (deck_cards (deck m)) = 1 \<longrightarrow>
                 cards_to_index m1 = Inr [0, 0, 0, 0, 0, 0, 0, 0, 0, 0])
            \<and> exposure_ok m1)
       \<and> exposure_ok (fst (snd (MyBlackjackEnv_step m g action)))
       \<and> exposure_ok (fst (snd (MyBlackjackEnv_reset m g)))
       \<and> exposure_ok (MyBlackjackEnv_init n)
       \<and> (\<exists>h. cards_to_index m = Inr h \<and> length h = 10
            \<and> (\<forall>v \<in> {1..10}. h ! nat (v - 1) = int (count_list (cards m) v)
                  \<and> h ! nat (v - 1) = int (count (mset full_cards) v)
                                      - int (count (mset (deck_cards (deck m))) v)))"
proof -
  have ne: "deck_cards (deck m) \<noteq> []" using assms by (simp add: exposure_ok_def)
  obtain c m1 where
      a: "draw_exposed m g reseted
            = (Inr c, m1, stl g, reseted \<or> length (deck_cards (deck m)) = 1)"
      and cs: "cards m1 = (if length (deck_cards (deck m)) = 1 then [] else cards m @ [c])"
    using draw_exposed_ok [OF ne, of g reseted] by blast
  have e1: "exposure_ok m1" using draw_exposed_exposure [OF assms a] .
  have z: "length (deck_cards (deck m)) = 1 \<longrightarrow>
                 cards_to_index m1 = Inr [0, 0, 0, 0, 0, 0, 0, 0, 0, 0]"
    using cs cards_to_index_empty [of m1] by simp
  have "\<exists>c m1. draw_exposed m g reseted
              = (Inr c, m1, stl g, reseted \<or> length (deck_cards (deck m)) = 1)
            \<and> cards m1 = (if length (deck_cards (deck m)) = 1 then [] else cards m @ [c])
            \<and> (length (deck_cards (deck m)) = 1 \<longrightarrow>
                 cards_to_index m1 = Inr [0, 0, 0, 0, 0, 0, 0, 0, 0, 0])
            \<and> exposure_ok m1"
    using a cs z e1 by blast
  moreover have "exposure_ok (fst (snd (MyBlackjackEnv_reset m g)))"
    using MyBlackjackEnv_reset_props [OF ne, of g] assms by auto
  ultimately show ?thesis
    using MyBlackjackEnv_step_exposure [OF assms, of g action]
      MyBlackjackEnv_init_exposure [of n] exposure_ok_histogram [OF assms]
    by blast
qed

theorem C1_exposure_witness:
  "exposure_ok last_card_env
   \<and> draw_exposed last_card_env (sconst 0) False
       = (Inr 5, last_card_env\<lparr>deck := \<lparr>deck_cards = full_cards\<rparr>, cards := []\<rparr>, sconst 0, True)
   \<and> exposure_ok (last_card_env\<lparr>deck := \<lparr>deck_cards = full_cards\<rparr>, cards := []\<rparr>)"
  using C1_exposure [OF last_card_env_ok, of "sconst 0" False] last_card_env_ok
  by (simp add: last_card_env_def eval_defs)

theorem C1_exposure_counterexample:
  "MyBlackjackEnv_step last_card_env (sconst 0) 1 =
     (Inr ((21, 10, False), 0, False, True),
      last_card_env\<lparr>player := [10, 6, 5], deck := \<lparr>deck_cards = full_cards\<rparr>, cards := []\<rparr>,
      sconst 0)
   \<and> cards_to_index
        (last_card_env\<lparr>player := [10, 6, 5], deck := \<lparr>deck_cards = full_cards\<rparr>, cards := []\<rparr>)
       = Inr [0, 0, 0, 0, 0, 0, 0, 0, 0, 0]
   \<and> cards_to_index
        (last_card_env\<lparr>player := [10, 6, 5], deck := \<lparr>deck_cards = full_cards\<rparr>, cards := []\<rparr>)
       \<noteq> Inr [0, 0, 0, 0, 1, 0, 0, 0, 0, 0]"
  by (simp add: last_card_env_def eval_defs cards_to_index_def numeral_eq_Suc)

end
